theory Spec2Isabelle
  imports Main "HOL-Library.Word" "HOL-Library.AList"
begin

section \<open>JavaScript strings\<close>

text \<open>
  A JavaScript string is a sequence of UTF-16 code units. String literals of the source
  are ASCII and are written \<open>js ''...''\<close>; single characters are written \<open>ch CHR ''x''\<close>.
\<close>

type_synonym code_unit = "16 word"
type_synonym jsstring = "code_unit list"

abbreviation ch :: "char \<Rightarrow> code_unit" where
  "ch c \<equiv> of_char c"

definition js :: "string \<Rightarrow> jsstring" where
  "js s = map of_char s"

datatype error = URIError | TypeError | SyntaxError | Thrown jsstring

text \<open>\<open>if (s)\<close> for a string or \<open>null\<close>.\<close>

definition truthy :: "jsstring option \<Rightarrow> bool" where
  "truthy s = (case s of None \<Rightarrow> False | Some v \<Rightarrow> v \<noteq> [])"

text \<open>\<open>s.startsWith(c)\<close> for a one-character search string.\<close>

definition startsWith :: "jsstring \<Rightarrow> code_unit \<Rightarrow> bool" where
  "startsWith s c = (case s of [] \<Rightarrow> False | x # _ \<Rightarrow> x = c)"

text \<open>\<open>s.slice(n)\<close> for \<open>n \<ge> 0\<close>.\<close>

definition slice :: "jsstring \<Rightarrow> nat \<Rightarrow> jsstring" where
  "slice s n = drop n s"

text \<open>\<open>s.split(sep)\<close> for a one-character separator; the empty string splits into \<open>['''']\<close>.\<close>

fun str_split :: "jsstring \<Rightarrow> code_unit \<Rightarrow> jsstring list" where
  "str_split [] sep = [[]]"
| "str_split (c # cs) sep =
     (if c = sep then [] # str_split cs sep
      else (case str_split cs sep of [] \<Rightarrow> [[c]] | p # ps \<Rightarrow> (c # p) # ps))"

text \<open>\<open>s.indexOf(c)\<close>: the index of the first occurrence, or \<open>-1\<close>.\<close>

fun indexOf :: "jsstring \<Rightarrow> code_unit \<Rightarrow> int" where
  "indexOf [] c = - 1"
| "indexOf (x # xs) c =
     (if x = c then 0 else (let i = indexOf xs c in if i < 0 then - 1 else i + 1))"

text \<open>
  \<open>s.substring(a, b)\<close> and \<open>s.substring(a)\<close>: both indices are clamped to the string and
  swapped when out of order.
\<close>

definition clamp_index :: "jsstring \<Rightarrow> int \<Rightarrow> nat" where
  "clamp_index s i = min (nat i) (length s)"

definition substring :: "jsstring \<Rightarrow> int \<Rightarrow> int \<Rightarrow> jsstring" where
  "substring s a b =
     (let lo = min (clamp_index s a) (clamp_index s b);
          hi = max (clamp_index s a) (clamp_index s b)
      in take (hi - lo) (drop lo s))"

definition substring_from :: "jsstring \<Rightarrow> int \<Rightarrow> jsstring" where
  "substring_from s a = drop (clamp_index s a) s"

text \<open>\<open>parts.join(sep)\<close> for a one-character separator.\<close>

fun join :: "jsstring list \<Rightarrow> code_unit \<Rightarrow> jsstring" where
  "join [] sep = []"
| "join [p] sep = p"
| "join (p # q # ps) sep = p @ sep # join (q # ps) sep"


section \<open>The built-in URI component codec\<close>

text \<open>
  \<open>decodeURIComponent\<close> and \<open>encodeURIComponent\<close> as ECMAScript defines them (the abstract
  operations Decode and Encode). Octets are natural numbers below 256, code points natural
  numbers up to \<open>0x10FFFF\<close>.
\<close>

definition hexval :: "code_unit \<Rightarrow> nat option" where
  "hexval c =
     (if ch CHR ''0'' \<le> c \<and> c \<le> ch CHR ''9'' then Some (unat c - 48)
      else if ch CHR ''a'' \<le> c \<and> c \<le> ch CHR ''f'' then Some (unat c - 87)
      else if ch CHR ''A'' \<le> c \<and> c \<le> ch CHR ''F'' then Some (unat c - 55)
      else None)"

definition ParseHexOctet :: "code_unit \<Rightarrow> code_unit \<Rightarrow> nat option" where
  "ParseHexOctet h1 h2 =
     (case hexval h1 of None \<Rightarrow> None
      | Some a \<Rightarrow> (case hexval h2 of None \<Rightarrow> None | Some b \<Rightarrow> Some (16 * a + b)))"

text \<open>The number of leading 1 bits of an octet; 5 stands for "more than four".\<close>

definition leading_ones :: "nat \<Rightarrow> nat" where
  "leading_ones b =
     (if b < 0x80 then 0 else if b < 0xC0 then 1 else if b < 0xE0 then 2
      else if b < 0xF0 then 3 else if b < 0xF8 then 4 else 5)"

text \<open>Reads \<open>j\<close> further escapes \<open>%XX\<close>; \<open>None\<close> where Decode throws.\<close>

fun continuation_octets :: "nat \<Rightarrow> jsstring \<Rightarrow> (nat list \<times> jsstring) option" where
  "continuation_octets 0 s = Some ([], s)"
| "continuation_octets (Suc j) (p # h1 # h2 # rest) =
     (if p \<noteq> ch CHR ''%'' then None
      else (case ParseHexOctet h1 h2 of None \<Rightarrow> None
            | Some b \<Rightarrow> (case continuation_octets j rest of None \<Rightarrow> None
                         | Some (bs, r) \<Rightarrow> Some (b # bs, r))))"
| "continuation_octets (Suc j) s = None"

definition is_continuation :: "nat \<Rightarrow> bool" where
  "is_continuation b = (0x80 \<le> b \<and> b < 0xC0)"

text \<open>
  The code point of a multi-octet sequence, if the octets are a valid UTF-8 encoding:
  continuation octets of the form \<open>10xxxxxx\<close>, no overlong form, no surrogate, at most
  \<open>0x10FFFF\<close>.
\<close>

fun utf8_decode :: "nat list \<Rightarrow> nat option" where
  "utf8_decode [b0, b1] =
     (let v = (b0 - 0xC0) * 64 + (b1 - 0x80)
      in if is_continuation b1 \<and> 0x80 \<le> v then Some v else None)"
| "utf8_decode [b0, b1, b2] =
     (let v = (b0 - 0xE0) * 4096 + (b1 - 0x80) * 64 + (b2 - 0x80)
      in if is_continuation b1 \<and> is_continuation b2 \<and> 0x800 \<le> v
            \<and> \<not> (0xD800 \<le> v \<and> v \<le> 0xDFFF) then Some v else None)"
| "utf8_decode [b0, b1, b2, b3] =
     (let v = (b0 - 0xF0) * 262144 + (b1 - 0x80) * 4096 + (b2 - 0x80) * 64 + (b3 - 0x80)
      in if is_continuation b1 \<and> is_continuation b2 \<and> is_continuation b3
            \<and> 0x10000 \<le> v \<and> v \<le> 0x10FFFF then Some v else None)"
| "utf8_decode bs = None"

definition UTF16EncodeCodePoint :: "nat \<Rightarrow> jsstring" where
  "UTF16EncodeCodePoint cp =
     (if cp \<le> 0xFFFF then [of_nat cp]
      else [of_nat (0xD800 + (cp - 0x10000) div 1024),
            of_nat (0xDC00 + (cp - 0x10000) mod 1024)])"

text \<open>
  One escape, read after its \<open>%\<close>: the code units it stands for and the rest of the
  string, or \<open>None\<close> where Decode throws a URIError.
\<close>

definition decode_escape :: "jsstring \<Rightarrow> (jsstring \<times> jsstring) option" where
  "decode_escape s =
     (case s of
        h1 # h2 # rest \<Rightarrow>
          (case ParseHexOctet h1 h2 of
             None \<Rightarrow> None
           | Some b \<Rightarrow>
               (let n = leading_ones b in
                if n = 0 then Some ([of_nat b], rest)
                else if n = 1 \<or> n > 4 then None
                else (case continuation_octets (n - 1) rest of
                        None \<Rightarrow> None
                      | Some (bs, r) \<Rightarrow>
                          (case utf8_decode (b # bs) of
                             None \<Rightarrow> None
                           | Some v \<Rightarrow> Some (UTF16EncodeCodePoint v, r)))))
      | _ \<Rightarrow> None)"

lemma continuation_octets_length:
  "continuation_octets j s = Some (bs, r) \<Longrightarrow> length r \<le> length s"
proof (induction j s arbitrary: bs r rule: continuation_octets.induct)
  case (2 j p h1 h2 rest)
  from "2.prems" obtain b bs' where
    "p = ch CHR ''%''" "ParseHexOctet h1 h2 = Some b" "continuation_octets j rest = Some (bs', r)"
    by (auto split: if_splits option.splits)
  with "2.IH" have "length r \<le> length rest" by simp
  then show ?case by simp
qed simp_all

lemma decode_escape_length:
  "decode_escape s = Some (u, r) \<Longrightarrow> length r < length s"
  by (auto simp: decode_escape_def Let_def
           split: list.splits option.splits if_splits
           dest: continuation_octets_length)

function decodeURIComponent :: "jsstring \<Rightarrow> error + jsstring" where
  "decodeURIComponent [] = Inr []"
| "decodeURIComponent (c # rest) =
     (if c = ch CHR ''%'' then
        (case decode_escape rest of
           None \<Rightarrow> Inl URIError
         | Some (u, r) \<Rightarrow>
             (case decodeURIComponent r of Inl e \<Rightarrow> Inl e | Inr t \<Rightarrow> Inr (u @ t)))
      else (case decodeURIComponent rest of Inl e \<Rightarrow> Inl e | Inr t \<Rightarrow> Inr (c # t)))"
  by pat_completeness auto
termination
  by (relation "measure length") (auto dest: decode_escape_length)

text \<open>The characters \<open>encodeURIComponent\<close> leaves as they are.\<close>

definition unreserved :: "code_unit \<Rightarrow> bool" where
  "unreserved c =
     ((ch CHR ''a'' \<le> c \<and> c \<le> ch CHR ''z'') \<or> (ch CHR ''A'' \<le> c \<and> c \<le> ch CHR ''Z'')
      \<or> (ch CHR ''0'' \<le> c \<and> c \<le> ch CHR ''9'')
      \<or> c \<in> set (map of_char ''-_.!~*()'') \<or> c = 0x27)"

definition is_high_surrogate :: "code_unit \<Rightarrow> bool" where
  "is_high_surrogate c = (0xD800 \<le> c \<and> c \<le> 0xDBFF)"

definition is_low_surrogate :: "code_unit \<Rightarrow> bool" where
  "is_low_surrogate c = (0xDC00 \<le> c \<and> c \<le> 0xDFFF)"

definition pair_code_point :: "code_unit \<Rightarrow> code_unit \<Rightarrow> nat" where
  "pair_code_point hi lo = 0x10000 + (unat hi - 0xD800) * 1024 + (unat lo - 0xDC00)"

definition utf8_encode :: "nat \<Rightarrow> nat list" where
  "utf8_encode cp =
     (if cp < 0x80 then [cp]
      else if cp < 0x800 then [0xC0 + cp div 64, 0x80 + cp mod 64]
      else if cp < 0x10000 then [0xE0 + cp div 4096, 0x80 + (cp div 64) mod 64, 0x80 + cp mod 64]
      else [0xF0 + cp div 262144, 0x80 + (cp div 4096) mod 64, 0x80 + (cp div 64) mod 64,
            0x80 + cp mod 64])"

definition hexdigit :: "nat \<Rightarrow> code_unit" where
  "hexdigit n = of_nat (if n < 10 then 48 + n else 55 + n)"

definition percent_octet :: "nat \<Rightarrow> jsstring" where
  "percent_octet b = [ch CHR ''%'', hexdigit (b div 16), hexdigit (b mod 16)]"

text \<open>An unpaired surrogate makes \<open>encodeURIComponent\<close> throw a URIError.\<close>

fun encodeURIComponent :: "jsstring \<Rightarrow> error + jsstring" where
  "encodeURIComponent [] = Inr []"
| "encodeURIComponent (c # rest) =
     (if unreserved c then
        (case encodeURIComponent rest of Inl e \<Rightarrow> Inl e | Inr t \<Rightarrow> Inr (c # t))
      else if is_high_surrogate c then
        (case rest of
           [] \<Rightarrow> Inl URIError
         | d # rest' \<Rightarrow>
             (if is_low_surrogate d then
                (case encodeURIComponent rest' of
                   Inl e \<Rightarrow> Inl e
                 | Inr t \<Rightarrow> Inr (concat (map percent_octet (utf8_encode (pair_code_point c d))) @ t))
              else Inl URIError))
      else if is_low_surrogate c then Inl URIError
      else (case encodeURIComponent rest of
              Inl e \<Rightarrow> Inl e
            | Inr t \<Rightarrow> Inr (concat (map percent_octet (utf8_encode (unat c))) @ t)))"


section \<open>Plain objects used as maps\<close>

text \<open>
  An object literal \<open>{}\<close> holding string values: its own enumerable properties, in the
  order \<open>for (key in map)\<close> visits them. Keys that are array indices (canonical decimal
  numerals below \<open>2^32 - 1\<close>, which is 4294967295) come first, in ascending numeric order, the other keys follow
  in the order of their creation. Assigning a string to \<open>__proto__\<close> reaches the setter
  inherited from \<open>Object.prototype\<close>, which ignores it and creates no property.
\<close>

type_synonym jsobject = "(jsstring \<times> jsstring) list"

definition is_digit :: "code_unit \<Rightarrow> bool" where
  "is_digit c = (ch CHR ''0'' \<le> c \<and> c \<le> ch CHR ''9'')"

definition decimal_value :: "jsstring \<Rightarrow> int" where
  "decimal_value k = fold (\<lambda>c n. 10 * n + (uint c - 48)) k 0"

definition array_index :: "jsstring \<Rightarrow> int option" where
  "array_index k =
     (if k \<noteq> [] \<and> list_all is_digit k \<and> (k = [ch CHR ''0''] \<or> \<not> startsWith k (ch CHR ''0''))
         \<and> decimal_value k < 4294967295
      then Some (decimal_value k) else None)"

text \<open>
  A new index key goes before the first index key that is greater and before the keys that
  are no indices.
\<close>

fun insert_index :: "int \<Rightarrow> jsstring \<Rightarrow> jsstring \<Rightarrow> jsobject \<Rightarrow> jsobject" where
  "insert_index n k v [] = [(k, v)]"
| "insert_index n k v ((k', v') # rest) =
     (case array_index k' of
        None \<Rightarrow> (k, v) # (k', v') # rest
      | Some n' \<Rightarrow> (if n' \<le> n then (k', v') # insert_index n k v rest
                    else (k, v) # (k', v') # rest))"

fun overwrite :: "jsstring \<Rightarrow> jsstring \<Rightarrow> jsobject \<Rightarrow> jsobject" where
  "overwrite k v [] = []"
| "overwrite k v ((k', v') # rest) =
     (if k' = k then (k', v) # rest else (k', v') # overwrite k v rest)"

text \<open>\<open>map[key] = value\<close>\<close>

definition obj_set :: "jsobject \<Rightarrow> jsstring \<Rightarrow> jsstring \<Rightarrow> jsobject" where
  "obj_set ob k v =
     (if k = js ''__proto__'' then ob
      else if k \<in> fst ` set ob then overwrite k v ob
      else (case array_index k of None \<Rightarrow> ob @ [(k, v)] | Some n \<Rightarrow> insert_index n k v ob))"


section \<open>src/utils/uri.js\<close>

text \<open>The private helpers \<open>urlDecode_\<close> and \<open>urlEncode_\<close> are written without their trailing underscore.\<close>

definition urlDecode :: "jsstring \<Rightarrow> error + jsstring" where
  "urlDecode str = decodeURIComponent (map (\<lambda>c. if c = ch CHR ''+'' then ch CHR '' '' else c) str)"

definition urlEncode :: "jsstring \<Rightarrow> error + jsstring" where
  "urlEncode str = encodeURIComponent str"

text \<open>
  The loop of \<open>parseQueryString\<close> over \<open>pairs\<close>. The callback works on a state \<open>'s\<close>; the
  result is the state after the calls made, and the exception if the loop was left by one.
\<close>

fun parse_pairs ::
  "jsstring list \<Rightarrow> (jsstring \<Rightarrow> jsstring \<Rightarrow> 's \<Rightarrow> 's) \<Rightarrow> 's \<Rightarrow> 's \<times> error option" where
  "parse_pairs [] callback s = (s, None)"
| "parse_pairs (p # ps) callback s =
     (let separatorIndex = indexOf p (ch CHR ''='') in
      if separatorIndex \<ge> 0 then
        (let key = substring p 0 separatorIndex;
             val = substring_from p (separatorIndex + 1)
         in case urlDecode val of
              Inl e \<Rightarrow> (s, Some e)
            | Inr v \<Rightarrow> parse_pairs ps callback (callback key v s))
      else parse_pairs ps callback (callback p [] s))"

definition parseQueryString ::
  "jsstring \<Rightarrow> (jsstring \<Rightarrow> jsstring \<Rightarrow> 's \<Rightarrow> 's) \<Rightarrow> 's \<Rightarrow> 's \<times> error option" where
  "parseQueryString query callback s =
     (if query = [] then (s, None)
      else (let query' = (if startsWith query (ch CHR ''?'') then slice query 1 else query)
            in parse_pairs (str_split query' (ch CHR ''&'')) callback s))"

definition parseQueryMap :: "jsstring \<Rightarrow> error + jsobject" where
  "parseQueryMap query =
     (case parseQueryString query (\<lambda>key val m. obj_set m key val) [] of
        (m, None) \<Rightarrow> Inr m
      | (m, Some e) \<Rightarrow> Inl e)"

fun encode_params :: "jsobject \<Rightarrow> error + jsstring list" where
  "encode_params [] = Inr []"
| "encode_params ((key, val) # rest) =
     (case urlEncode val of
        Inl e \<Rightarrow> Inl e
      | Inr ev \<Rightarrow> (case encode_params rest of
                     Inl e \<Rightarrow> Inl e
                   | Inr params \<Rightarrow> Inr ((key @ ch CHR ''='' # ev) # params)))"

definition encodeQueryMap :: "jsobject \<Rightarrow> error + jsstring" where
  "encodeQueryMap m =
     (case encode_params m of Inl e \<Rightarrow> Inl e | Inr params \<Rightarrow> Inr (join params (ch CHR ''&'')))"

text \<open>
  \<open>key.replace(/[\[]/, '\\\[')\<close>: the pattern has no \<open>g\<close> flag, so the first match only is
  replaced.
\<close>

fun replace_first :: "jsstring \<Rightarrow> code_unit \<Rightarrow> jsstring \<Rightarrow> jsstring" where
  "replace_first [] c r = []"
| "replace_first (x # xs) c r = (if x = c then r @ xs else x # replace_first xs c r)"

definition escape_key :: "jsstring \<Rightarrow> jsstring" where
  "escape_key key =
     replace_first (replace_first key (ch CHR ''['') [0x5C, ch CHR ''[''])
       (ch CHR '']'') [0x5C, ch CHR '']'']"

text \<open>
  The built-in \<open>RegExp\<close> class is a parameter: \<open>new RegExp(source)\<close>, which throws on a
  source that is no pattern, and \<open>exec\<close>, which gives \<open>null\<close> or the list of the match and
  its groups, a group that took no part in the match being \<open>undefined\<close>.
\<close>

record 'r regexp_api =
  new_RegExp :: "jsstring \<Rightarrow> error + 'r"
  exec :: "'r \<Rightarrow> jsstring \<Rightarrow> jsstring option list option"

text \<open>The source \<open>'[\\?&]' + key + '=([^&#]*)'\<close> of the pattern, for the escaped key.\<close>

definition lookup_pattern :: "jsstring \<Rightarrow> jsstring" where
  "lookup_pattern key =
     [ch CHR ''['', 0x5C, ch CHR ''?'', ch CHR ''&'', ch CHR '']''] @ escape_key key @ js ''=([^&#]*)''"

text \<open>\<open>results === null ? null : results[1]\<close>\<close>

definition first_group :: "jsstring option list option \<Rightarrow> jsstring option" where
  "first_group results =
     (case results of
        None \<Rightarrow> None
      | Some groups \<Rightarrow> (case drop 1 groups of [] \<Rightarrow> None | g # rest \<Rightarrow> g))"

text \<open>\<open>opt_uri || window.location.href\<close>\<close>

definition or_href :: "jsstring option \<Rightarrow> jsstring \<Rightarrow> jsstring" where
  "or_href opt_uri href = (case opt_uri of None \<Rightarrow> href | Some u \<Rightarrow> if u = [] then href else u)"

text \<open>
  \<open>getParameterValue(key, opt_uri)\<close>; \<open>href\<close> is \<open>window.location.href\<close>, and the result
  \<open>Inr None\<close> is \<open>null\<close>.
\<close>

definition getParameterValue ::
  "'r regexp_api \<Rightarrow> jsstring \<Rightarrow> jsstring option \<Rightarrow> jsstring \<Rightarrow> error + jsstring option" where
  "getParameterValue rx key opt_uri href =
     (let uri = or_href opt_uri href
      in case new_RegExp rx (lookup_pattern key) of
           Inl e \<Rightarrow> Inl e
         | Inr regex \<Rightarrow>
             (let result = first_group (exec rx regex uri)
              in if truthy result then
                   (case urlDecode (case result of None \<Rightarrow> [] | Some r \<Rightarrow> r) of
                      Inl e \<Rightarrow> Inl e
                    | Inr v \<Rightarrow> Inr (Some v))
                 else Inr None))"

text \<open>The visitor that records its calls, in order.\<close>

definition record_visit :: "jsstring \<Rightarrow> jsstring \<Rightarrow> (jsstring \<times> jsstring) list \<Rightarrow> (jsstring \<times> jsstring) list" where
  "record_visit key val calls = calls @ [(key, val)]"

section \<open>The query decoder in the words of the specification\<close>

text \<open>
  The segments of a query: one leading \<open>?\<close> is stripped, the empty query has no segment,
  the rest is split on \<open>&\<close>. A segment is cut at its first \<open>=\<close>: what is before is the key,
  what is after is the raw value; a segment without \<open>=\<close> is its own key and has the empty
  value. \<open>raw_pairs\<close> are the pairs of a query from left to right, values not yet decoded.
\<close>

definition query_segments :: "jsstring \<Rightarrow> jsstring list" where
  "query_segments query =
     (case query of
        [] \<Rightarrow> []
      | c # rest \<Rightarrow> str_split (if c = ch CHR ''?'' then rest else query) (ch CHR ''&''))"

definition segment_key :: "jsstring \<Rightarrow> jsstring" where
  "segment_key seg = takeWhile (\<lambda>c. c \<noteq> ch CHR ''='') seg"

definition segment_value :: "jsstring \<Rightarrow> jsstring" where
  "segment_value seg = drop 1 (dropWhile (\<lambda>c. c \<noteq> ch CHR ''='') seg)"

definition raw_pairs :: "jsstring \<Rightarrow> (jsstring \<times> jsstring) list" where
  "raw_pairs query = map (\<lambda>seg. (segment_key seg, segment_value seg)) (query_segments query)"

text \<open>
  A raw value is well escaped when \<open>urlDecode_\<close> returns on it, that is when none of its
  percent-escapes is malformed; \<open>decoded\<close> is what it then returns. \<open>plus_to_space\<close> is the
  replacement made before the escapes are read.
\<close>

definition well_escaped :: "jsstring \<Rightarrow> bool" where
  "well_escaped raw = (case urlDecode raw of Inl e \<Rightarrow> False | Inr v \<Rightarrow> True)"

definition decoded :: "jsstring \<Rightarrow> jsstring" where
  "decoded raw = (case urlDecode raw of Inl e \<Rightarrow> [] | Inr v \<Rightarrow> v)"

definition plus_to_space :: "code_unit \<Rightarrow> code_unit" where
  "plus_to_space c = (if c = ch CHR ''+'' then ch CHR '' '' else c)"


section \<open>The loop of \<open>parseQueryString\<close>, segment by segment\<close>

text \<open>
  A second form of the code, for the proofs: what the body of the loop does with one
  element of \<open>pairs\<close>, written with \<open>takeWhile\<close> and \<open>dropWhile\<close> in place of \<open>indexOf\<close> and
  \<open>substring\<close>, and the loop over it. Like the loop it leaves at the first value that
  \<open>urlDecode_\<close> throws on.
\<close>

definition decode_segment :: "jsstring \<Rightarrow> error + (jsstring \<times> jsstring)" where
  "decode_segment seg =
     (if ch CHR ''='' \<in> set seg then
        (case urlDecode (drop 1 (dropWhile (\<lambda>c. c \<noteq> ch CHR ''='') seg)) of
           Inl e \<Rightarrow> Inl e
         | Inr v \<Rightarrow> Inr (takeWhile (\<lambda>c. c \<noteq> ch CHR ''='') seg, v))
      else Inr (seg, []))"

fun visit_segments ::
  "jsstring list \<Rightarrow> (jsstring \<Rightarrow> jsstring \<Rightarrow> 's \<Rightarrow> 's) \<Rightarrow> 's \<Rightarrow> 's \<times> error option" where
  "visit_segments [] visit s = (s, None)"
| "visit_segments (seg # segs) visit s =
     (case decode_segment seg of
        Inl e \<Rightarrow> (s, Some e)
      | Inr (k, v) \<Rightarrow> visit_segments segs visit (visit k v s))"


section \<open>Patterns of literal keys\<close>

text \<open>
  The syntax characters of the pattern language. A key without any of them, and without
  \<open>&\<close> and \<open>=\<close>, is plain: as a pattern it stands for itself, and it can be the key of a
  segment.
\<close>

definition syntax_character :: "code_unit \<Rightarrow> bool" where
  "syntax_character c = (c \<in> set (map of_char ''^$.*+?()[]{}|'') \<or> c = 0x5C)"

definition plain_key :: "jsstring \<Rightarrow> bool" where
  "plain_key key =
     list_all (\<lambda>c. c \<noteq> ch CHR ''&'' \<and> c \<noteq> ch CHR ''='' \<and> \<not> syntax_character c) key"

text \<open>
  What \<open>exec\<close> gives for the pattern \<open>[\?&]\<close>, a literal key and \<open>=([^&#]*)\<close>: the match is
  at the leftmost \<open>?\<close> or \<open>&\<close> that the key and \<open>=\<close> follow, and the group is the longest run
  without \<open>&\<close> and \<open>#\<close> after it.
\<close>

fun regex_exec :: "jsstring \<Rightarrow> jsstring \<Rightarrow> jsstring option list option" where
  "regex_exec lit [] = None"
| "regex_exec lit (c # rest) =
     (if (c = ch CHR ''?'' \<or> c = ch CHR ''&'') \<and> take (length lit + 1) rest = lit @ [ch CHR ''='']
      then (let group = takeWhile (\<lambda>x. x \<noteq> ch CHR ''&'' \<and> x \<noteq> ch CHR ''#'')
                          (drop (length lit + 1) rest)
            in Some [Some (c # lit @ ch CHR ''='' # group), Some group])
      else regex_exec lit rest)"


text \<open>
  An input for the examples: a \<open>RegExp\<close> that knows the lookup patterns of plain keys only.
  On the pattern of a plain key its \<open>exec\<close> is \<open>regex_exec\<close>; on any other source the
  constructor throws a SyntaxError, as the constructor of the language does on the pattern
  of the key \<open>(\<close>, where a group is opened and never closed.
\<close>

definition literal_RegExp :: "jsstring regexp_api" where
  "literal_RegExp =
     \<lparr> new_RegExp = (\<lambda>source.
         (let key = take (length source - 14) (drop 5 source)
          in if plain_key key \<and> source = lookup_pattern key then Inr key else Inl SyntaxError)),
       exec = regex_exec \<rparr>"


section \<open>Notions for the round trip through \<open>encodeQueryMap\<close>\<close>

text \<open>A Unicode scalar value: a code point that is no surrogate.\<close>

definition scalar_value :: "nat \<Rightarrow> bool" where
  "scalar_value cp = (cp \<le> 0x10FFFF \<and> (cp < 0xD800 \<or> 0xDFFF < cp))"

text \<open>A string without unpaired surrogates.\<close>

fun well_formed :: "jsstring \<Rightarrow> bool" where
  "well_formed [] = True"
| "well_formed (c # rest) =
     (if is_high_surrogate c then
        (case rest of [] \<Rightarrow> False | d # rest' \<Rightarrow> is_low_surrogate d \<and> well_formed rest')
      else if is_low_surrogate c then False
      else well_formed rest)"

text \<open>The separators of a query and the plus sign.\<close>

definition query_special :: "code_unit \<Rightarrow> bool" where
  "query_special c = (c = ch CHR ''&'' \<or> c = ch CHR ''='' \<or> c = ch CHR ''+'' \<or> c = ch CHR ''?'' \<or> c = ch CHR ''%'')"

text \<open>A code unit that means nothing to the query decoder.\<close>

definition plain :: "code_unit \<Rightarrow> bool" where
  "plain c = (c \<noteq> ch CHR ''&'' \<and> c \<noteq> ch CHR ''='' \<and> c \<noteq> ch CHR ''+'' \<and> c \<noteq> ch CHR ''?'')"

text \<open>
  The order of the keys of an object: index keys first, in ascending order, then the
  others. An object built by assignments has distinct keys in that order, and never the
  key \<open>__proto__\<close>.
\<close>

definition precedes :: "jsstring \<Rightarrow> jsstring \<Rightarrow> bool" where
  "precedes k k' =
     (case array_index k of
        None \<Rightarrow> array_index k' = None
      | Some n \<Rightarrow> (case array_index k' of None \<Rightarrow> True | Some n' \<Rightarrow> n \<le> n'))"

definition ordinary_object :: "jsobject \<Rightarrow> bool" where
  "ordinary_object ob =
     (distinct (map fst ob) \<and> sorted_wrt precedes (map fst ob) \<and> js ''__proto__'' \<notin> set (map fst ob))"

text \<open>
  \<open>decodeMap(encodeMap(decodeMap(q)))\<close>, an exception of any of the three calls being the
  result; the queries whose keys are made of characters that \<open>encodeURIComponent\<close> leaves
  alone; and the queries whose decoded values have no unpaired surrogate.
\<close>

definition decode_encode_decode :: "jsstring \<Rightarrow> error + jsobject" where
  "decode_encode_decode q =
     (case parseQueryMap q of
        Inl e \<Rightarrow> Inl e
      | Inr m \<Rightarrow> (case encodeQueryMap m of Inl e \<Rightarrow> Inl e | Inr s \<Rightarrow> parseQueryMap s))"

definition plain_keys :: "jsstring \<Rightarrow> bool" where
  "plain_keys q = list_all (\<lambda>seg. list_all unreserved (segment_key seg)) (query_segments q)"

definition well_formed_values :: "jsstring \<Rightarrow> bool" where
  "well_formed_values q =
     (case parseQueryMap q of Inl e \<Rightarrow> True | Inr m \<Rightarrow> list_all (\<lambda>(k, v). well_formed v) m)"



section \<open>src/youtubemodal/index.js\<close>

text \<open>
  The modal works on the page: the module's two variables \<open>player\<close> and \<open>singleton\<close>, the
  parts of the browser it reads and writes, and a log of what it does to its collaborators
  (the player, the history, the timers, the configured callbacks). The collaborators are
  opaque: the DOM helpers and the player constructor are taken to return, a callback to
  leave the modal alone. Private names are written without their trailing underscore.
\<close>

text \<open>A video id as the history sees it: \<open>undefined\<close>, \<open>null\<close> or a string.\<close>

datatype jsval = Undefined | Null | Str jsstring

text \<open>\<open>a == b\<close> on such values.\<close>

fun loose_eq :: "jsval \<Rightarrow> jsval \<Rightarrow> bool" where
  "loose_eq (Str a) (Str b) = (a = b)"
| "loose_eq (Str a) v = False"
| "loose_eq v (Str b) = False"
| "loose_eq v w = True"

text \<open>String concatenation \<open>s + v\<close> turns \<open>v\<close> into a string.\<close>

fun to_string :: "jsval \<Rightarrow> jsstring" where
  "to_string Undefined = js ''undefined''"
| "to_string Null = js ''null''"
| "to_string (Str s) = s"

text \<open>
  A JavaScript number is kept as what the modal uses of it: whether it counts as true in a
  condition (it is neither zero nor NaN), and the text that string concatenation gives for
  it. The numbers are the start time and the values of \<open>playerVars\<close>.
\<close>

datatype jsnumber = Number bool jsstring

fun number_truthy :: "jsnumber \<Rightarrow> bool" where
  "number_truthy (Number t text) = t"

fun number_text :: "jsnumber \<Rightarrow> jsstring" where
  "number_text (Number t text) = text"

record config =
  useHandlerOnMobile :: bool
  history :: bool
  historyNamePrefix :: jsstring
  transitionDuration :: nat
  className :: jsstring
  parentSelector :: jsstring
  onModalOpen :: bool
  onModalClose :: bool
  playerVars :: "(jsstring \<times> jsnumber) list"

text \<open>\<open>onModalOpen\<close> and \<open>onModalClose\<close> say whether a callback is configured.\<close>

definition defaultConfig :: config where
  "defaultConfig =
     \<lparr> useHandlerOnMobile = True, history = False, historyNamePrefix = js ''video:'',
       transitionDuration = 300, className = js ''ak-youtubemodal'',
       parentSelector = js ''body'', onModalOpen = False, onModalClose = False,
       playerVars = [(js ''autohide'', Number True (js ''1'')),
         (js ''autoplay'', Number True (js ''1'')), (js ''fs'', Number True (js ''1'')),
         (js ''modestbranding'', Number True (js ''1'')), (js ''rel'', Number False (js ''0'')),
         (js ''showinfo'', Number False (js ''0'')),
         (js ''iv_load_policy'', Number True (js ''3''))] \<rparr>"

text \<open>
  A \<open>YouTubeModal\<close> object. \<open>lastActiveVideoId_\<close> starts as \<open>null\<close> and \<open>activeVideoId_\<close> is
  not set by the constructor: both are \<open>None\<close> until a string is stored.
\<close>

record modal =
  config :: config
  lastActiveVideoId :: "jsstring option"
  activeVideoId :: "jsstring option"
  scrollY :: int

text \<open>The player handle, with the options it was constructed with.\<close>

datatype handle = Player jsstring "(jsstring \<times> jsnumber) list"

datatype timer_action = PlayVideo | PauseVideo | EnableClass jsstring bool

datatype effect =
    BuildModalDom jsstring jsstring
  | ListenCloseClick
  | ListenPopstate
  | ListenDelegatedClick
  | LoadIframeApi
  | CallOnModalOpen "jsstring option"
  | CallOnModalClose "jsstring option"
  | ScrollTo int int
  | SetTimeout timer_action nat
  | PushState jsval jsstring
  | Navigate jsstring
  | NewPlayer jsstring "(jsstring \<times> jsnumber) list"
  | LoadVideoById jsstring nat jsstring

text \<open>
  \<open>isMobile\<close> is \<open>useragent.isIOS() || useragent.isAndroid()\<close>; \<open>history_state\<close> is
  \<open>window.history.state\<close>, \<open>None\<close> for \<open>null\<close> and \<open>Some v\<close> for \<open>{videoId: v}\<close>;
  \<open>keydown_listeners\<close> are the listeners on \<open>document.body\<close>, each function object known
  by the number it got when it was created.
\<close>

record page =
  player :: "handle option"
  singleton :: "modal option"
  isMobile :: bool
  pageYOffset :: int
  location_pathname :: jsstring
  history_state :: "jsval option"
  keydown_listeners :: "nat list"
  next_function :: nat
  effects :: "effect list"

definition emit :: "effect \<Rightarrow> page \<Rightarrow> page" where
  "emit e pg = pg\<lparr>effects := effects pg @ [e]\<rparr>"

definition addEventListener :: "nat \<Rightarrow> page \<Rightarrow> page" where
  "addEventListener f pg =
     (if f \<in> set (keydown_listeners pg) then pg
      else pg\<lparr>keydown_listeners := keydown_listeners pg @ [f]\<rparr>)"

definition removeEventListener :: "nat \<Rightarrow> page \<Rightarrow> page" where
  "removeEventListener f pg = pg\<lparr>keydown_listeners := filter (\<lambda>g. g \<noteq> f) (keydown_listeners pg)\<rparr>"

definition pushState :: "jsval \<Rightarrow> jsstring \<Rightarrow> page \<Rightarrow> page" where
  "pushState v url pg = emit (PushState v url) (pg\<lparr>history_state := Some v\<rparr>)"

text \<open>
  \<open>setVisible\<close>: every call makes a new function \<open>_keyToggle\<close> (the result of \<open>bind\<close>), and
  it is this new function that is added or removed.
\<close>

definition setVisible :: "bool \<Rightarrow> modal \<Rightarrow> page \<Rightarrow> page" where
  "setVisible enabled m pg =
     (let pg1 = (if player pg \<noteq> None
                 then emit (SetTimeout (if enabled then PlayVideo else PauseVideo) 100) pg
                 else pg);
          keyToggle = next_function pg1;
          pg2 = pg1\<lparr>next_function := Suc keyToggle\<rparr>;
          pg3 = (if enabled then addEventListener keyToggle pg2
                 else removeEventListener keyToggle pg2);
          pg4 = emit (SetTimeout (EnableClass (className (config m) @ js ''--enabled'') enabled)
                        (if enabled then 0 else transitionDuration (config m))) pg3
      in emit (SetTimeout (EnableClass (className (config m) @ js ''--visible'') enabled)
                 (if enabled then transitionDuration (config m) else 0)) pg4)"

definition setActive ::
  "bool \<Rightarrow> jsstring option \<Rightarrow> bool option \<Rightarrow> modal \<Rightarrow> page \<Rightarrow> modal \<times> page" where
  "setActive active opt_videoId opt_updateState m pg =
     (let given = (case opt_videoId of None \<Rightarrow> False | Some v \<Rightarrow> v \<noteq> []);
          m1 = (if given then m\<lparr>lastActiveVideoId := opt_videoId\<rparr> else m);
          m2 = (if active then m1\<lparr>scrollY := pageYOffset pg\<rparr> else m1);
          pg1 = (if active then
                   (if onModalOpen (config m1) then emit (CallOnModalOpen (lastActiveVideoId m1)) pg
                    else pg)
                 else emit (ScrollTo 0 (scrollY m1))
                        (if onModalClose (config m1)
                         then emit (CallOnModalClose (lastActiveVideoId m1)) pg else pg));
          pg2 = setVisible active m2 pg1
      in if \<not> history (config m2) then (m2, pg2)
         else if opt_updateState = Some False then (m2, pg2)
         else (let videoId = (if given then (case opt_videoId of None \<Rightarrow> Undefined | Some v \<Rightarrow> Str v)
                              else (case activeVideoId m2 of None \<Rightarrow> Undefined | Some a \<Rightarrow> Str a))
               in if active then
                    (let stateId = (case history_state pg2 of None \<Rightarrow> Null | Some v \<Rightarrow> v)
                     in if loose_eq stateId videoId then (m2, pg2)
                        else (m2, pushState videoId
                                    (ch CHR ''#'' # historyNamePrefix (config m2) @ to_string videoId) pg2))
                  else (m2, pushState Null (location_pathname pg2) pg2)))"

text \<open>\<open>YouTubeModal.prototype.play\<close>; \<open>opt_startTime\<close> is \<open>None\<close> when the argument is left out.\<close>

definition YouTubeModal_play ::
  "jsstring \<Rightarrow> bool option \<Rightarrow> jsnumber option \<Rightarrow> modal \<Rightarrow> page \<Rightarrow> modal \<times> page" where
  "YouTubeModal_play videoId opt_updateState opt_startTime m pg =
     (let useHandler = (useHandlerOnMobile (config m) \<and> isMobile pg)
      in if useHandler then
           (m, emit (Navigate (js ''https://m.youtube.com/watch?v='' @ videoId
                       @ (case opt_startTime of
                            None \<Rightarrow> []
                          | Some t \<Rightarrow> (if number_truthy t then js ''&t='' @ number_text t @ js ''s''
                                       else [])))) pg)
         else (case setActive True (Some videoId) opt_updateState m pg of
                 (m1, pg1) \<Rightarrow>
                   (if player pg1 \<noteq> None \<and> activeVideoId m1 = Some videoId then (m1, pg1)
                    else if player pg1 \<noteq> None then
                      (m1\<lparr>activeVideoId := Some videoId\<rparr>,
                       emit (LoadVideoById videoId 0 (js ''large'')) pg1)
                    else (let vars = (case opt_startTime of
                                        None \<Rightarrow> playerVars (config m1)
                                      | Some t \<Rightarrow>
                                          (if number_truthy t
                                           then AList.update (js ''start'') t (playerVars (config m1))
                                           else playerVars (config m1)))
                          in (m1\<lparr>activeVideoId := Some videoId\<rparr>,
                              emit (NewPlayer videoId vars)
                                (pg1\<lparr>player := Some (Player videoId vars)\<rparr>))))))"

definition onHistoryChange :: "jsval option \<Rightarrow> modal \<Rightarrow> page \<Rightarrow> modal \<times> page" where
  "onHistoryChange state m pg =
     (case state of
        Some (Str v) \<Rightarrow> (if v \<noteq> [] then YouTubeModal_play v (Some False) None m pg
                         else (m, setVisible False m pg))
      | _ \<Rightarrow> (m, setVisible False m pg))"

text \<open>
  The constructor, with the listeners it registers. \<open>init\<close> takes \<open>objects.merge\<close>, which is
  not part of these sources, as the parameter \<open>merge\<close>.
\<close>

definition YouTubeModal :: "config \<Rightarrow> page \<Rightarrow> modal \<times> page" where
  "YouTubeModal cfg pg =
     (let pg1 = emit ListenCloseClick (emit (BuildModalDom (className cfg) (parentSelector cfg)) pg);
          pg2 = (if history cfg then emit ListenPopstate pg1 else pg1)
      in (\<lparr> config = cfg, lastActiveVideoId = None, activeVideoId = None, scrollY = 0 \<rparr>,
          emit LoadIframeApi (emit ListenDelegatedClick pg2)))"

definition init :: "(config \<Rightarrow> 'o \<Rightarrow> config) \<Rightarrow> 'o option \<Rightarrow> page \<Rightarrow> page" where
  "init merge opt_config pg =
     (if singleton pg \<noteq> None then pg
      else (case YouTubeModal (case opt_config of None \<Rightarrow> defaultConfig
                                | Some c \<Rightarrow> merge defaultConfig c) pg of
              (m, pg1) \<Rightarrow> pg1\<lparr>singleton := Some m\<rparr>))"

text \<open>The module's \<open>play\<close>.\<close>

definition play :: "jsstring \<Rightarrow> page \<Rightarrow> error + page" where
  "play videoId pg =
     (case singleton pg of
        None \<Rightarrow> Inl (Thrown (js ''youtubemodal.init must be run first.''))
      | Some m \<Rightarrow> (case YouTubeModal_play videoId None None m pg of
                     (m1, pg1) \<Rightarrow> Inr (pg1\<lparr>singleton := Some m1\<rparr>)))"

text \<open>
  The events the modal listens to, each running the handlers the constructor or
  \<open>setVisible\<close> registered; before \<open>init\<close> there is no handler. A \<open>_keyToggle\<close> that was
  removed while earlier listeners of the same event ran is not called.
\<close>

definition with_singleton :: "(modal \<Rightarrow> page \<Rightarrow> modal \<times> page) \<Rightarrow> page \<Rightarrow> page" where
  "with_singleton method pg =
     (case singleton pg of
        None \<Rightarrow> pg
      | Some m \<Rightarrow> (case method m pg of (m1, pg1) \<Rightarrow> pg1\<lparr>singleton := Some m1\<rparr>))"

definition click_close :: "page \<Rightarrow> page" where
  "click_close pg = with_singleton (setActive False None None) pg"

definition click_video :: "jsstring option \<Rightarrow> jsnumber \<Rightarrow> page \<Rightarrow> page" where
  "click_video videoId startTime pg =
     (case videoId of
        None \<Rightarrow> pg
      | Some v \<Rightarrow> (if v \<noteq> [] then with_singleton (YouTubeModal_play v (Some False) (Some startTime)) pg
                   else pg))"

definition popstate :: "jsval option \<Rightarrow> page \<Rightarrow> page" where
  "popstate state pg =
     (let pg1 = pg\<lparr>history_state := state\<rparr>
      in case singleton pg1 of
           None \<Rightarrow> pg1
         | Some m \<Rightarrow> (if history (config m) then with_singleton (onHistoryChange state) pg1 else pg1))"

definition keyToggle :: "nat \<Rightarrow> nat \<Rightarrow> page \<Rightarrow> page" where
  "keyToggle f keyCode pg =
     (if keyCode = 27 then removeEventListener f (with_singleton (setActive False None None) pg)
      else pg)"

fun run_listeners :: "nat list \<Rightarrow> nat \<Rightarrow> page \<Rightarrow> page" where
  "run_listeners [] keyCode pg = pg"
| "run_listeners (f # fs) keyCode pg =
     run_listeners fs keyCode (if f \<in> set (keydown_listeners pg) then keyToggle f keyCode pg else pg)"

definition keydown :: "nat \<Rightarrow> page \<Rightarrow> page" where
  "keydown keyCode pg = run_listeners (keydown_listeners pg) keyCode pg"

text \<open>What can happen to a page, and a page as it is loaded.\<close>

datatype 'o action =
    Init "'o option"
  | Play jsstring
  | ClickClose
  | ClickVideo "jsstring option" jsnumber
  | KeyDown nat
  | PopState "jsval option"
  | Scroll int

fun step :: "(config \<Rightarrow> 'o \<Rightarrow> config) \<Rightarrow> 'o action \<Rightarrow> page \<Rightarrow> page" where
  "step merge (Init opt_config) pg = init merge opt_config pg"
| "step merge (Play videoId) pg = (case play videoId pg of Inl e \<Rightarrow> pg | Inr pg1 \<Rightarrow> pg1)"
| "step merge ClickClose pg = click_close pg"
| "step merge (ClickVideo videoId startTime) pg = click_video videoId startTime pg"
| "step merge (KeyDown keyCode) pg = keydown keyCode pg"
| "step merge (PopState state) pg = popstate state pg"
| "step merge (Scroll y) pg = pg\<lparr>pageYOffset := y\<rparr>"

definition run :: "(config \<Rightarrow> 'o \<Rightarrow> config) \<Rightarrow> 'o action list \<Rightarrow> page \<Rightarrow> page" where
  "run merge actions pg = fold (step merge) actions pg"

definition loaded_page :: "bool \<Rightarrow> jsstring \<Rightarrow> jsval option \<Rightarrow> page" where
  "loaded_page mobile pathname state =
     \<lparr> player = None, singleton = None, isMobile = mobile, pageYOffset = 0,
       location_pathname = pathname, history_state = state, keydown_listeners = [],
       next_function = 0, effects = [] \<rparr>"

text \<open>
  The parts of the log the claims speak of. What is done to the player is its
  construction, \<open>loadVideoById\<close>, and the \<open>playVideo\<close> and \<open>pauseVideo\<close> that \<open>setVisible\<close>
  sends through its timer.
\<close>

fun is_NewPlayer :: "effect \<Rightarrow> bool" where
  "is_NewPlayer (NewPlayer v vars) = True"
| "is_NewPlayer e = False"

fun is_player_command :: "effect \<Rightarrow> bool" where
  "is_player_command (NewPlayer v vars) = True"
| "is_player_command (LoadVideoById v s q) = True"
| "is_player_command (SetTimeout PlayVideo delay) = True"
| "is_player_command (SetTimeout PauseVideo delay) = True"
| "is_player_command e = False"

definition player_commands :: "page \<Rightarrow> effect list" where
  "player_commands pg = filter is_player_command (effects pg)"

fun pushed_videoId :: "effect \<Rightarrow> jsval list" where
  "pushed_videoId (PushState v url) = [v]"
| "pushed_videoId e = []"

definition pushed :: "page \<Rightarrow> jsval list" where
  "pushed pg = concat (map pushed_videoId (effects pg))"

text \<open>The number of players constructed so far.\<close>

definition constructions :: "page \<Rightarrow> nat" where
  "constructions pg = length (filter is_NewPlayer (effects pg))"

text \<open>The invariant: a player was constructed exactly when the variable holds one.\<close>

definition constructed_once :: "page \<Rightarrow> bool" where
  "constructed_once pg = (constructions pg = (if player pg = None then 0 else 1))"

text \<open>Inputs for the examples: a configuration with the history on, an \<open>objects.merge\<close> that takes the
  given configuration whole, and a modal as the constructor leaves it.\<close>

definition history_config :: config where
  "history_config = defaultConfig\<lparr>history := True\<rparr>"

definition keep_given :: "config \<Rightarrow> config \<Rightarrow> config" where
  "keep_given defaults given = given"

definition desktop_modal :: modal where
  "desktop_modal = \<lparr> config = defaultConfig, lastActiveVideoId = None, activeVideoId = None, scrollY = 0 \<rparr>"


section \<open>\<open>updateParamsFromUrl\<close> of src/utils/uri.js\<close>

text \<open>
  The configuration; \<open>params\<close> is \<open>None\<close> for \<open>null\<close>, and a listed parameter is a string or a
  regular expression, which is taken as the set of keys it matches.
\<close>

datatype param = PString jsstring | PRegExp "jsstring \<Rightarrow> bool"

record update_config =
  serializeAttr :: jsstring
  selector :: jsstring
  attr :: jsstring
  params :: "param list option"

definition UpdateParamsFromUrlDefaultConfig :: update_config where
  "UpdateParamsFromUrlDefaultConfig =
     \<lparr> serializeAttr = js ''data-ak-update-params-serialize-into-key'',
       selector = js ''a.ak-update-params[href]'', attr = js ''href'', params = None \<rparr>"

text \<open>
  The browser: the location, the elements of the document in document order, each with
  its attributes, and a log of the calls made on the DOM.
\<close>

type_synonym element = "jsstring \<rightharpoonup> jsstring"

datatype dom_op =
    QuerySelectorAll jsstring
  | GetAttribute nat jsstring
  | SetAttribute nat jsstring jsstring

record browser =
  location_search :: jsstring
  location_href :: jsstring
  document :: "element list"
  dom_log :: "dom_op list"

text \<open>
  The built-in \<open>URL\<close> class is a parameter: \<open>new URL(s, base)\<close>, which throws on a string
  that is no URL, the getter and the setter of \<open>search\<close>, and \<open>toString\<close>.
\<close>

record 'u url_api =
  new_URL :: "jsstring \<Rightarrow> jsstring \<Rightarrow> error + 'u"
  get_search :: "'u \<Rightarrow> jsstring"
  set_search :: "'u \<Rightarrow> jsstring \<Rightarrow> 'u"
  toString :: "'u \<Rightarrow> jsstring"

definition getAttribute :: "nat \<Rightarrow> jsstring \<Rightarrow> browser \<Rightarrow> jsstring option \<times> browser" where
  "getAttribute i a b = ((document b ! i) a, b\<lparr>dom_log := dom_log b @ [GetAttribute i a]\<rparr>)"

definition setAttribute :: "nat \<Rightarrow> jsstring \<Rightarrow> jsstring \<Rightarrow> browser \<Rightarrow> browser" where
  "setAttribute i a v b =
     b\<lparr>document := (document b)[i := (document b ! i)(a \<mapsto> v)],
       dom_log := dom_log b @ [SetAttribute i a v]\<rparr>"

text \<open>The callback handed to \<open>parseQueryString\<close>, which fills \<open>vals\<close>.\<close>

fun keep_param :: "jsstring \<Rightarrow> jsstring \<Rightarrow> param \<Rightarrow> jsobject \<Rightarrow> jsobject" where
  "keep_param key val (PRegExp matches) vals = (if matches key then obj_set vals key val else vals)"
| "keep_param key val (PString name) vals = (if name = key then obj_set vals key val else vals)"

definition collect :: "param list option \<Rightarrow> jsstring \<Rightarrow> jsstring \<Rightarrow> jsobject \<Rightarrow> jsobject" where
  "collect ps key val vals =
     (case ps of None \<Rightarrow> obj_set vals key val | Some l \<Rightarrow> fold (keep_param key val) l vals)"

text \<open>The body of the loop over the matched elements, for the element \<open>i\<close>.\<close>

definition update_element ::
  "'u url_api \<Rightarrow> update_config \<Rightarrow> jsobject \<Rightarrow> nat \<Rightarrow> browser \<Rightarrow> browser \<times> error option" where
  "update_element api c vals i b =
     (case getAttribute i (attr c) b of
        (href, b1) \<Rightarrow>
          (if truthy href \<and> \<not> startsWith (case href of None \<Rightarrow> [] | Some h \<Rightarrow> h) (ch CHR ''#'') then
             (case getAttribute i (attr c) b1 of
                (href2, b2) \<Rightarrow>
                  (case new_URL api (case href2 of None \<Rightarrow> js ''null'' | Some h \<Rightarrow> h) (location_href b2) of
                     Inl e \<Rightarrow> (b2, Some e)
                   | Inr url \<Rightarrow>
                       (case parseQueryMap (get_search api url) of
                          Inl e \<Rightarrow> (b2, Some e)
                        | Inr m \<Rightarrow>
                            (case getAttribute i (serializeAttr c) b2 of
                               (serializeIntoKey, b3) \<Rightarrow>
                                 (case (if truthy serializeIntoKey then
                                          (case encodeQueryMap vals of
                                             Inl e \<Rightarrow> Inl e
                                           | Inr serializedQueryString \<Rightarrow>
                                               encodeQueryMap
                                                 (obj_set m (case serializeIntoKey of None \<Rightarrow> [] | Some k \<Rightarrow> k)
                                                    serializedQueryString))
                                        else encodeQueryMap (fold (\<lambda>(key, val) m'. obj_set m' key val) vals m)) of
                                    Inl e \<Rightarrow> (b3, Some e)
                                  | Inr search \<Rightarrow>
                                      (setAttribute i (attr c) (toString api (set_search api url search)) b3,
                                       None))))))
           else (b1, None)))"

fun update_elements ::
  "'u url_api \<Rightarrow> update_config \<Rightarrow> jsobject \<Rightarrow> nat list \<Rightarrow> browser \<Rightarrow> browser \<times> error option" where
  "update_elements api c vals [] b = (b, None)"
| "update_elements api c vals (i # els) b =
     (case update_element api c vals i b of
        (b1, Some e) \<Rightarrow> (b1, Some e)
      | (b1, None) \<Rightarrow> update_elements api c vals els b1)"

text \<open>
  \<open>updateParamsFromUrl\<close>. \<open>objects.merge\<close> and the matching of a selector are parameters:
  \<open>merge\<close> gives the defaults overridden by the given configuration \<open>given\<close>, \<open>selects s d i\<close> says
  whether the selector \<open>s\<close> matches the element \<open>i\<close> of the document \<open>d\<close>.
\<close>

definition querySelectorAll ::
  "(jsstring \<Rightarrow> element list \<Rightarrow> nat \<Rightarrow> bool) \<Rightarrow> jsstring \<Rightarrow> browser \<Rightarrow> nat list \<times> browser" where
  "querySelectorAll selects s b =
     (filter (selects s (document b)) [0..<length (document b)],
      b\<lparr>dom_log := dom_log b @ [QuerySelectorAll s]\<rparr>)"

definition updateParamsFromUrl ::
  "'u url_api \<Rightarrow> (jsstring \<Rightarrow> element list \<Rightarrow> nat \<Rightarrow> bool) \<Rightarrow> (update_config \<Rightarrow> 'o \<Rightarrow> update_config)
     \<Rightarrow> 'o \<Rightarrow> browser \<Rightarrow> browser \<times> error option" where
  "updateParamsFromUrl api selects merge given b =
     (if location_search b = [] then (b, None)
      else (let c = merge UpdateParamsFromUrlDefaultConfig given
            in case parseQueryString (location_search b) (collect (params c)) [] of
                 (vals, Some e) \<Rightarrow> (b, Some e)
               | (vals, None) \<Rightarrow>
                   (case querySelectorAll selects (selector c) b of
                      (els, b1) \<Rightarrow> update_elements api c vals els b1)))"

text \<open>An element that the loop skips: its attribute is absent, empty or starts with \<open>#\<close>.\<close>

definition skipped :: "element \<Rightarrow> jsstring \<Rightarrow> bool" where
  "skipped el a = (case el a of None \<Rightarrow> True | Some h \<Rightarrow> h = [] \<or> startsWith h (ch CHR ''#''))"

text \<open>
  Inputs for the examples: a \<open>URL\<close> class that keeps the string and appends the new query,
  a page with the query \<open>a=1\<close> and two links, and an \<open>objects.merge\<close> for a call without
  configuration.
\<close>

definition example_api :: "jsstring url_api" where
  "example_api =
     \<lparr> new_URL = (\<lambda>s base. Inr s), get_search = (\<lambda>u. []),
       set_search = (\<lambda>u s. u @ ch CHR ''?'' # s), toString = (\<lambda>u. u) \<rparr>"

definition example_browser :: browser where
  "example_browser =
     \<lparr> location_search = js ''?a=1'', location_href = js ''https://x/?a=1'',
       document = [[js ''href'' \<mapsto> js ''#top''], [js ''href'' \<mapsto> js ''/p'']], dom_log = [] \<rparr>"

definition defaults_only :: "update_config \<Rightarrow> unit \<Rightarrow> update_config" where
  "defaults_only defaults given = defaults"

section \<open>Facts about the string helpers\<close>

lemma indexOf_nonneg_iff: "0 \<le> indexOf p c \<longleftrightarrow> c \<in> set p"
  by (induction p) (auto simp: Let_def)

lemma indexOf_ge_minus_one: "- 1 \<le> indexOf p c"
  by (induction p) (auto simp: Let_def)

lemma indexOf_takeWhile:
  "c \<in> set p \<Longrightarrow> indexOf p c = int (length (takeWhile (\<lambda>x. x \<noteq> c) p))"
  by (induction p) (auto simp: Let_def indexOf_nonneg_iff)

lemma substring_key:
  "c \<in> set p \<Longrightarrow> substring p 0 (indexOf p c) = takeWhile (\<lambda>x. x \<noteq> c) p"
proof -
  assume "c \<in> set p"
  then have i: "indexOf p c = int (length (takeWhile (\<lambda>x. x \<noteq> c) p))"
    by (rule indexOf_takeWhile)
  have "length (takeWhile (\<lambda>x. x \<noteq> c) p) \<le> length p"
    by (rule length_takeWhile_le)
  then have "substring p 0 (indexOf p c) = take (length (takeWhile (\<lambda>x. x \<noteq> c) p)) p"
    by (simp add: i substring_def clamp_index_def Let_def)
  also have "\<dots> = takeWhile (\<lambda>x. x \<noteq> c) p"
    by (rule takeWhile_eq_take [symmetric])
  finally show ?thesis .
qed

lemma substring_from_value:
  "c \<in> set p \<Longrightarrow> substring_from p (indexOf p c + 1) = drop 1 (dropWhile (\<lambda>x. x \<noteq> c) p)"
proof -
  assume "c \<in> set p"
  then have i: "indexOf p c = int (length (takeWhile (\<lambda>x. x \<noteq> c) p))"
    by (rule indexOf_takeWhile)
  from \<open>c \<in> set p\<close> have "length (takeWhile (\<lambda>x. x \<noteq> c) p) < length p"
    by (induction p) auto
  then have "clamp_index p (indexOf p c + 1) = Suc (length (takeWhile (\<lambda>x. x \<noteq> c) p))"
    by (simp add: i clamp_index_def nat_add_distrib)
  then show ?thesis
    by (simp add: substring_from_def dropWhile_eq_drop drop_Suc drop_tl)
qed

lemma parse_pairs_visit_segments:
  "parse_pairs ps visit s = visit_segments ps visit s"
proof (induction ps arbitrary: s)
  case Nil
  show ?case by simp
next
  case (Cons p ps)
  show ?case
  proof (cases "ch CHR ''='' \<in> set p")
    case True
    then have "0 \<le> indexOf p (ch CHR ''='')" by (simp add: indexOf_nonneg_iff)
    with True Cons.IH show ?thesis
      using substring_key [of "ch CHR ''=''" p] substring_from_value [of "ch CHR ''=''" p]
      by (simp add: decode_segment_def Let_def split: sum.splits)
  next
    case False
    then have "\<not> 0 \<le> indexOf p (ch CHR ''='')" by (simp add: indexOf_nonneg_iff)
    with False Cons.IH show ?thesis
      by (simp add: decode_segment_def Let_def)
  qed
qed




lemmas eval_defs =
  parseQueryMap_def parseQueryString_def js_def startsWith_def slice_def obj_set_def
  array_index_def substring_def substring_from_def clamp_index_def urlDecode_def
  decode_escape_def record_visit_def

lemma decodeURIComponent_error: "decodeURIComponent s = Inl e \<Longrightarrow> e = URIError"
proof (induction s rule: decodeURIComponent.induct)
  case 1
  then show ?case by simp
next
  case (2 c rest)
  then show ?case
    by (auto split: if_splits option.splits sum.splits)
qed

lemma urlDecode_error: "urlDecode s = Inl e \<Longrightarrow> e = URIError"
  unfolding urlDecode_def by (rule decodeURIComponent_error)

lemma urlDecode_Nil: "urlDecode [] = Inr []"
  by (simp add: urlDecode_def)

lemma well_escaped_Nil: "well_escaped []"
  by (simp add: well_escaped_def urlDecode_def)

lemma decode_segment_cases:
  "decode_segment seg =
     (if well_escaped (segment_value seg)
      then Inr (if ch CHR ''='' \<in> set seg then segment_key seg else seg,
                case urlDecode (segment_value seg) of Inr v \<Rightarrow> v | Inl e \<Rightarrow> [])
      else Inl URIError)"
proof (cases "ch CHR ''='' \<in> set seg")
  case True
  then show ?thesis
    by (auto simp: decode_segment_def segment_value_def segment_key_def well_escaped_def
             split: sum.splits dest: urlDecode_error)
next
  case False
  then have dw: "dropWhile (\<lambda>c. c \<noteq> ch CHR ''='') seg = []"
    by (induction seg) auto
  have "segment_value seg = []"
    unfolding segment_value_def dw by simp
  then show ?thesis
    using False by (simp add: decode_segment_def well_escaped_def urlDecode_Nil)
qed

lemma visit_segments_outcome:
  "snd (visit_segments segs visit s)
     = (if list_all (\<lambda>seg. well_escaped (segment_value seg)) segs then None else Some URIError)"
  by (induction segs arbitrary: s) (simp_all add: decode_segment_cases)

lemma parseQueryString_outcome:
  "snd (parseQueryString query visit s)
     = (if list_all (\<lambda>seg. well_escaped (segment_value seg)) (query_segments query)
        then None else Some URIError)"
  by (cases query)
     (simp_all add: parseQueryString_def query_segments_def startsWith_def slice_def Let_def
        parse_pairs_visit_segments visit_segments_outcome)

lemma parseQueryMap_outcome:
  "(\<exists>m. parseQueryMap query = Inr m)
     = list_all (\<lambda>seg. well_escaped (segment_value seg)) (query_segments query)"
  "(parseQueryMap query = Inl e)
     = (e = URIError \<and> \<not> list_all (\<lambda>seg. well_escaped (segment_value seg)) (query_segments query))"
  using parseQueryString_outcome [of query "\<lambda>key val m. obj_set m key val" "[]"]
  by (auto simp: parseQueryMap_def split: prod.splits option.splits if_splits)

lemma getParameterValue_outcome:
  "(getParameterValue rx key opt_uri href = Inl e)
     = (new_RegExp rx (lookup_pattern key) = Inl e
        \<or> e = URIError
          \<and> (\<exists>regex raw. new_RegExp rx (lookup_pattern key) = Inr regex
                \<and> first_group (exec rx regex (or_href opt_uri href)) = Some raw
                \<and> \<not> well_escaped raw))"
proof (cases "new_RegExp rx (lookup_pattern key)")
  case (Inl e')
  then show ?thesis by (auto simp: getParameterValue_def)
next
  case (Inr regex)
  show ?thesis
  proof (cases "first_group (exec rx regex (or_href opt_uri href))")
    case None
    with Inr show ?thesis by (simp add: getParameterValue_def truthy_def)
  next
    case (Some raw)
    with Inr show ?thesis
      by (cases "raw = []")
         (auto simp: getParameterValue_def truthy_def well_escaped_def urlDecode_Nil
            split: sum.splits dest: urlDecode_error)
  qed
qed


section \<open>The codec and the objects\<close>

lemma scale64: "(a::nat) * 4096 + m * 64 = (a * 64 + m) * 64"
  by simp

lemma scale4096: "(a::nat) * 262144 + m * 4096 = (a * 64 + m) * 4096"
  by simp

lemma recompose3: "(cp::nat) div 4096 * 4096 + cp div 64 mod 64 * 64 + cp mod 64 = cp"
proof -
  have e3: "cp div 4096 = cp div 64 div 64" by (simp add: div_mult2_eq)
  have "cp div 4096 * 4096 + cp div 64 mod 64 * 64 = cp div 64 * 64"
    by (simp only: e3 scale64 div_mult_mod_eq)
  then show ?thesis by (simp only: div_mult_mod_eq)
qed

lemma recompose4:
  "(cp::nat) div 262144 * 262144 + cp div 4096 mod 64 * 4096 + cp div 64 mod 64 * 64 + cp mod 64 = cp"
proof -
  have e4: "cp div 262144 = cp div 4096 div 64" by (simp add: div_mult2_eq)
  have "cp div 262144 * 262144 + cp div 4096 mod 64 * 4096 = cp div 4096 * 4096"
    by (simp only: e4 scale4096 div_mult_mod_eq)
  then show ?thesis by (simp only: recompose3)
qed

lemma mod64_octet: "(x::nat) mod 64 < 128"
proof -
  have "x mod 64 < 64" by simp
  then show ?thesis by linarith
qed

lemma unat_of_nat16: "k < 65536 \<Longrightarrow> unat (of_nat k :: 16 word) = k"
  by (simp add: unat_of_nat)

lemma hexval_hexdigit: "n < 16 \<Longrightarrow> hexval (hexdigit n) = Some n"
proof (cases "n < 10")
  case True
  then have "unat (of_nat (48 + n) :: 16 word) = 48 + n"
    by (simp only: unat_of_nat16)
  then have u: "unat (48 + of_nat n :: 16 word) = 48 + n"
    by simp
  from True show ?thesis
    by (simp add: hexval_def hexdigit_def word_le_nat_alt u)
next
  case False
  assume "n < 16"
  then have "unat (of_nat (55 + n) :: 16 word) = 55 + n"
    by (simp only: unat_of_nat16)
  then have u: "unat (55 + of_nat n :: 16 word) = 55 + n"
    by simp
  from False \<open>n < 16\<close> show ?thesis
    by (simp add: hexval_def hexdigit_def word_le_nat_alt u)
qed

lemma ParseHexOctet_hexdigit:
  "b < 256 \<Longrightarrow> ParseHexOctet (hexdigit (b div 16)) (hexdigit (b mod 16)) = Some b"
proof -
  assume "b < 256"
  then have "b div 16 < 16" "b mod 16 < 16" by simp_all
  then show ?thesis
    by (simp add: ParseHexOctet_def hexval_hexdigit)
qed

lemma continuation_octets_percent:
  "list_all (\<lambda>b. b < 256) bs \<Longrightarrow>
     continuation_octets (length bs) (concat (map percent_octet bs) @ t) = Some (bs, t)"
  by (induction bs) (simp_all add: percent_octet_def ParseHexOctet_hexdigit)

lemma utf8_two:
  assumes "0x80 \<le> cp" and "cp < 0x800"
  shows "utf8_encode cp = [0xC0 + cp div 64, 0x80 + cp mod 64]"
    and "leading_ones (0xC0 + cp div 64) = 2"
    and "utf8_decode [0xC0 + cp div 64, 0x80 + cp mod 64] = Some cp"
    and "0xC0 + cp div 64 < 256"
proof -
  from assms have d: "cp div 64 < 32" by simp
  from assms show "utf8_encode cp = [0xC0 + cp div 64, 0x80 + cp mod 64]"
    by (simp add: utf8_encode_def)
  from d show "leading_ones (0xC0 + cp div 64) = 2" "0xC0 + cp div 64 < 256"
    by (simp_all add: leading_ones_def)
  from assms show "utf8_decode [0xC0 + cp div 64, 0x80 + cp mod 64] = Some cp"
    by (simp add: is_continuation_def)
qed

lemma utf8_three:
  assumes "0x800 \<le> cp" and "cp < 0x10000" and "scalar_value cp"
  shows "utf8_encode cp = [0xE0 + cp div 4096, 0x80 + cp div 64 mod 64, 0x80 + cp mod 64]"
    and "leading_ones (0xE0 + cp div 4096) = 3"
    and "utf8_decode [0xE0 + cp div 4096, 0x80 + cp div 64 mod 64, 0x80 + cp mod 64] = Some cp"
    and "0xE0 + cp div 4096 < 256"
proof -
  from assms have d: "cp div 4096 < 16" by simp
  from assms show "utf8_encode cp = [0xE0 + cp div 4096, 0x80 + cp div 64 mod 64, 0x80 + cp mod 64]"
    by (simp add: utf8_encode_def)
  from d show "leading_ones (0xE0 + cp div 4096) = 3" "0xE0 + cp div 4096 < 256"
    by (simp_all add: leading_ones_def)
  from assms show
    "utf8_decode [0xE0 + cp div 4096, 0x80 + cp div 64 mod 64, 0x80 + cp mod 64] = Some cp"
    by (auto simp: is_continuation_def recompose3 scalar_value_def)
qed

lemma utf8_four:
  assumes "0x10000 \<le> cp" and "cp \<le> 0x10FFFF"
  shows "utf8_encode cp
      = [0xF0 + cp div 262144, 0x80 + cp div 4096 mod 64, 0x80 + cp div 64 mod 64, 0x80 + cp mod 64]"
    and "leading_ones (0xF0 + cp div 262144) = 4"
    and "utf8_decode [0xF0 + cp div 262144, 0x80 + cp div 4096 mod 64, 0x80 + cp div 64 mod 64,
           0x80 + cp mod 64] = Some cp"
    and "0xF0 + cp div 262144 < 256"
proof -
  from assms have d: "cp div 262144 < 5" by simp
  from assms show "utf8_encode cp
      = [0xF0 + cp div 262144, 0x80 + cp div 4096 mod 64, 0x80 + cp div 64 mod 64, 0x80 + cp mod 64]"
    by (simp add: utf8_encode_def)
  from d show "leading_ones (0xF0 + cp div 262144) = 4" "0xF0 + cp div 262144 < 256"
    by (simp_all add: leading_ones_def)
  from assms show "utf8_decode [0xF0 + cp div 262144, 0x80 + cp div 4096 mod 64,
      0x80 + cp div 64 mod 64, 0x80 + cp mod 64] = Some cp"
    by (simp add: is_continuation_def recompose4)
qed

lemma decode_escape_multi:
  assumes "b0 < 256" and "list_all (\<lambda>b. b < 256) bs" and "bs \<noteq> []" and "length bs \<le> 3"
    and "leading_ones b0 = Suc (length bs)" and "utf8_decode (b0 # bs) = Some cp"
  shows "decode_escape (hexdigit (b0 div 16) # hexdigit (b0 mod 16) # concat (map percent_octet bs) @ t)
           = Some (UTF16EncodeCodePoint cp, t)"
proof -
  from assms(3) have "length bs \<noteq> 0" by simp
  with assms show ?thesis
    by (simp add: decode_escape_def ParseHexOctet_hexdigit continuation_octets_percent Let_def)
qed

lemma decode_escape_encoded:
  assumes "scalar_value cp"
  shows "\<exists>x. concat (map percent_octet (utf8_encode cp)) @ t = ch CHR ''%'' # x
           \<and> decode_escape x = Some (UTF16EncodeCodePoint cp, t)"
proof -
  consider "cp < 0x80" | "0x80 \<le> cp" "cp < 0x800" | "0x800 \<le> cp" "cp < 0x10000"
    | "0x10000 \<le> cp"
    by linarith
  then show ?thesis
  proof cases
    case 1
    then have "cp < 256" by simp
    with 1 show ?thesis
      by (simp add: utf8_encode_def percent_octet_def decode_escape_def ParseHexOctet_hexdigit
            leading_ones_def UTF16EncodeCodePoint_def)
  next
    case 2
    note f = utf8_two [OF 2]
    have "decode_escape (hexdigit ((0xC0 + cp div 64) div 16) # hexdigit ((0xC0 + cp div 64) mod 16)
            # concat (map percent_octet [0x80 + cp mod 64]) @ t) = Some (UTF16EncodeCodePoint cp, t)"
      by (rule decode_escape_multi) (simp_all add: f mod64_octet del: utf8_decode.simps)
    then show ?thesis
      by (simp add: f(1) percent_octet_def)
  next
    case 3
    note f = utf8_three [OF 3 assms]
    have "decode_escape (hexdigit ((0xE0 + cp div 4096) div 16) # hexdigit ((0xE0 + cp div 4096) mod 16)
            # concat (map percent_octet [0x80 + cp div 64 mod 64, 0x80 + cp mod 64]) @ t)
          = Some (UTF16EncodeCodePoint cp, t)"
      by (rule decode_escape_multi) (simp_all add: f mod64_octet del: utf8_decode.simps)
    then show ?thesis
      by (simp add: f(1) percent_octet_def)
  next
    case 4
    from assms have le: "cp \<le> 0x10FFFF" by (simp add: scalar_value_def)
    note f = utf8_four [OF 4 le]
    have "decode_escape (hexdigit ((0xF0 + cp div 262144) div 16)
            # hexdigit ((0xF0 + cp div 262144) mod 16)
            # concat (map percent_octet [0x80 + cp div 4096 mod 64, 0x80 + cp div 64 mod 64,
                0x80 + cp mod 64]) @ t)
          = Some (UTF16EncodeCodePoint cp, t)"
      by (rule decode_escape_multi) (simp_all add: f mod64_octet del: utf8_decode.simps)
    then show ?thesis
      by (simp add: f(1) percent_octet_def)
  qed
qed

lemma unreserved_not_special: "unreserved c \<Longrightarrow> \<not> query_special c"
  by (auto simp: unreserved_def query_special_def)

lemma unreserved_not_surrogate:
  "unreserved c \<Longrightarrow> \<not> is_high_surrogate c \<and> \<not> is_low_surrogate c"
  by (auto simp: unreserved_def is_high_surrogate_def is_low_surrogate_def word_le_nat_alt)

lemma hexdigit_plain:
  assumes "n < 16"
  shows "hexdigit n \<noteq> ch CHR ''&''" "hexdigit n \<noteq> ch CHR ''=''" "hexdigit n \<noteq> ch CHR ''+''"
    "hexdigit n \<noteq> ch CHR ''?''" "hexdigit n \<noteq> ch CHR ''%''"
proof -
  have h: "hexval (hexdigit n) \<noteq> None" using assms by (simp add: hexval_hexdigit)
  have "hexval (ch CHR ''&'') = None" "hexval (ch CHR ''='') = None" "hexval (ch CHR ''+'') = None"
    "hexval (ch CHR ''?'') = None" "hexval (ch CHR ''%'') = None"
    by (simp_all add: hexval_def)
  with h show "hexdigit n \<noteq> ch CHR ''&''" "hexdigit n \<noteq> ch CHR ''=''" "hexdigit n \<noteq> ch CHR ''+''"
    "hexdigit n \<noteq> ch CHR ''?''" "hexdigit n \<noteq> ch CHR ''%''"
    by metis+
qed

lemma percent_octets_plain:
  "list_all (\<lambda>b. b < 256) bs \<Longrightarrow>
     list_all (\<lambda>c. c \<noteq> ch CHR ''&'' \<and> c \<noteq> ch CHR ''='' \<and> c \<noteq> ch CHR ''+'' \<and> c \<noteq> ch CHR ''?'')
       (concat (map percent_octet bs))"
proof (induction bs)
  case Nil
  then show ?case by simp
next
  case (Cons b bs)
  from Cons.prems have "b < 256" by simp
  then have "b div 16 < 16" "b mod 16 < 16" by simp_all
  from hexdigit_plain [OF this(1)] hexdigit_plain [OF this(2)] Cons show ?case
    by (simp add: percent_octet_def)
qed

lemma scalar_unit:
  assumes "\<not> is_high_surrogate c" and "\<not> is_low_surrogate c"
  shows "scalar_value (unat c)" and "UTF16EncodeCodePoint (unat c) = [c]"
proof -
  have lt: "unat c < 65536" using unsigned_less [of c, where 'a = nat] by simp
  from assms lt show "scalar_value (unat c)"
    by (auto simp: scalar_value_def is_high_surrogate_def is_low_surrogate_def word_le_nat_alt)
  from lt show "UTF16EncodeCodePoint (unat c) = [c]"
    by (simp add: UTF16EncodeCodePoint_def)
qed

lemma scalar_pair:
  assumes "is_high_surrogate hi" and "is_low_surrogate lo"
  shows "scalar_value (pair_code_point hi lo)"
    and "UTF16EncodeCodePoint (pair_code_point hi lo) = [hi, lo]"
proof -
  from assms have h: "0xD800 \<le> unat hi" "unat hi \<le> 0xDBFF" and l: "0xDC00 \<le> unat lo" "unat lo \<le> 0xDFFF"
    by (simp_all add: is_high_surrogate_def is_low_surrogate_def word_le_nat_alt)
  define a where "a = unat hi - 0xD800"
  define b where "b = unat lo - 0xDC00"
  from h l have ab: "a < 1024" "b < 1024" "unat hi = 0xD800 + a" "unat lo = 0xDC00 + b"
    by (simp_all add: a_def b_def)
  have cp: "pair_code_point hi lo = 0x10000 + (a * 1024 + b)"
    by (simp add: pair_code_point_def a_def b_def)
  from ab show "scalar_value (pair_code_point hi lo)"
    by (simp add: cp scalar_value_def)
  have d: "(a * 1024 + b) div 1024 = a" and m: "(a * 1024 + b) mod 1024 = b"
    using ab by simp_all
  have "of_nat (0xD800 + a) = hi" "of_nat (0xDC00 + b) = lo"
    using ab(3,4) [symmetric] by (simp_all only: of_nat_unat unsigned_word_eqI) simp_all
  with ab show "UTF16EncodeCodePoint (pair_code_point hi lo) = [hi, lo]"
    by (simp add: cp UTF16EncodeCodePoint_def d m del: of_nat_add)
qed

lemma decode_encoded:
  assumes "scalar_value cp"
  shows "decodeURIComponent (concat (map percent_octet (utf8_encode cp)) @ t)
           = (case decodeURIComponent t of Inl e \<Rightarrow> Inl e | Inr r \<Rightarrow> Inr (UTF16EncodeCodePoint cp @ r))"
proof -
  from decode_escape_encoded [OF assms, of t] obtain x where
    "concat (map percent_octet (utf8_encode cp)) @ t = ch CHR ''%'' # x"
    "decode_escape x = Some (UTF16EncodeCodePoint cp, t)"
    by blast
  then show ?thesis by simp
qed

lemma encoded_plain:
  assumes "scalar_value cp"
  shows "list_all (\<lambda>c. c \<noteq> ch CHR ''&'' \<and> c \<noteq> ch CHR ''='' \<and> c \<noteq> ch CHR ''+'' \<and> c \<noteq> ch CHR ''?'')
       (concat (map percent_octet (utf8_encode cp)))"
proof -
  from assms have "cp \<le> 0x10FFFF" by (simp add: scalar_value_def)
  then have "cp < 2048 \<Longrightarrow> cp div 64 < 64" "cp < 65536 \<Longrightarrow> cp div 4096 < 32"
    "cp div 262144 < 16"
    by simp_all
  then have "list_all (\<lambda>b. b < 256) (utf8_encode cp)"
    by (auto simp: utf8_encode_def mod64_octet)
  then show ?thesis by (rule percent_octets_plain)
qed

lemma unreserved_plain: "unreserved c \<Longrightarrow> plain c \<and> c \<noteq> ch CHR ''%''"
  using unreserved_not_special [of c] by (simp add: plain_def query_special_def)

lemma encoded_plain': "scalar_value cp \<Longrightarrow> list_all plain (concat (map percent_octet (utf8_encode cp)))"
  using encoded_plain [of cp] by (simp add: plain_def [abs_def])

lemma encode_decode:
  "encodeURIComponent v = Inr e \<Longrightarrow> decodeURIComponent e = Inr v \<and> list_all plain e"
proof (induction v arbitrary: e rule: encodeURIComponent.induct)
  case 1
  then show ?case by simp
next
  case (2 c rest)
  show ?case
  proof (cases "unreserved c")
    case True
    with "2.prems" obtain t where t: "encodeURIComponent rest = Inr t" "e = c # t"
      by (auto split: sum.splits)
    from "2.IH"(1) [OF True t(1)] True t(2) unreserved_plain [of c] show ?thesis
      by simp
  next
    case nu: False
    show ?thesis
    proof (cases "is_high_surrogate c")
      case True
      with nu "2.prems" obtain d rest' t where
        r: "rest = d # rest'" "is_low_surrogate d" "encodeURIComponent rest' = Inr t"
          "e = concat (map percent_octet (utf8_encode (pair_code_point c d))) @ t"
        by (auto split: sum.splits list.splits if_splits)
      note sp = scalar_pair [OF True r(2)]
      from "2.IH"(2) [OF nu True r(1) r(2) r(3)]
      have ih: "decodeURIComponent t = Inr rest'" "list_all plain t" by simp_all
      from ih sp r(1) show ?thesis
        unfolding r(4) by (simp add: decode_encoded encoded_plain')
    next
      case nh: False
      with nu "2.prems" obtain t where
        r: "\<not> is_low_surrogate c" "encodeURIComponent rest = Inr t"
          "e = concat (map percent_octet (utf8_encode (unat c))) @ t"
        by (auto split: sum.splits if_splits)
      note su = scalar_unit [OF nh r(1)]
      from "2.IH"(3) [OF nu nh r(1) r(2)]
      have ih: "decodeURIComponent t = Inr rest" "list_all plain t" by simp_all
      from ih su show ?thesis
        unfolding r(3) by (simp add: decode_encoded encoded_plain')
    qed
  qed
qed

lemma well_formed_encodes: "well_formed v \<Longrightarrow> \<exists>e. encodeURIComponent v = Inr e"
proof (induction v rule: encodeURIComponent.induct)
  case 1
  then show ?case by simp
next
  case (2 c rest)
  show ?case
  proof (cases "unreserved c")
    case True
    with "2.prems" unreserved_not_surrogate [of c] have "well_formed rest" by simp
    from "2.IH"(1) [OF True this] True show ?thesis by auto
  next
    case nu: False
    show ?thesis
    proof (cases "is_high_surrogate c")
      case True
      with "2.prems" obtain d rest' where
        r: "rest = d # rest'" "is_low_surrogate d" "well_formed rest'"
        by (auto split: list.splits)
      from "2.IH"(2) [OF nu True r] nu True r show ?thesis by auto
    next
      case nh: False
      with "2.prems" have r: "\<not> is_low_surrogate c" "well_formed rest"
        by (auto split: if_splits)
      from "2.IH"(3) [OF nu nh r] nu nh r show ?thesis by auto
    qed
  qed
qed

lemma urlDecode_plain: "list_all plain e \<Longrightarrow> urlDecode e = decodeURIComponent e"
proof -
  assume "list_all plain e"
  then have "map (\<lambda>c. if c = ch CHR ''+'' then ch CHR '' '' else c) e = e"
    by (induction e) (simp_all add: plain_def)
  then show ?thesis by (simp only: urlDecode_def)
qed

lemma urlEncode_urlDecode:
  "urlEncode v = Inr e \<Longrightarrow> urlDecode e = Inr v \<and> list_all plain e"
  using encode_decode [of v e] urlDecode_plain [of e] by (simp add: urlEncode_def)

lemma map_fst_overwrite: "map fst (overwrite k v ob) = map fst ob"
  by (induction ob) auto

lemma set_insert_index: "set (map fst (insert_index n k v ob)) = insert k (set (map fst ob))"
proof (induction ob)
  case Nil
  show ?case by simp
next
  case (Cons a ob)
  obtain k' v' where a: "a = (k', v')" by (cases a)
  show ?case
    unfolding a using Cons.IH by (cases "array_index k'") auto
qed

lemma distinct_insert_index:
  "k \<notin> set (map fst ob) \<Longrightarrow> distinct (map fst ob) \<Longrightarrow> distinct (map fst (insert_index n k v ob))"
proof (induction ob)
  case Nil
  then show ?case by simp
next
  case (Cons a ob)
  obtain k' v' where a: "a = (k', v')" by (cases a)
  from Cons have ih: "distinct (map fst (insert_index n k v ob))" by simp
  from Cons.prems a have "k' \<notin> set (map fst (insert_index n k v ob))"
    by (simp only: set_insert_index) auto
  with Cons.prems ih a show ?case
    by (auto split: option.splits)
qed

lemma sorted_insert_index:
  assumes "array_index k = Some n" and "sorted_wrt precedes (map fst ob)"
  shows "sorted_wrt precedes (map fst (insert_index n k v ob))"
  using assms(2)
proof (induction ob)
  case Nil
  then show ?case by simp
next
  case (Cons a ob)
  obtain k' v' where a: "a = (k', v')" by (cases a)
  from Cons.prems a have later: "\<forall>x \<in> set (map fst ob). precedes k' x"
    and rest: "sorted_wrt precedes (map fst ob)"
    by simp_all
  show ?case
  proof (cases "array_index k'")
    case None
    with later have "\<forall>x \<in> set (map fst ob). array_index x = None"
      by (simp add: precedes_def)
    with assms(1) None have "\<forall>x \<in> set (map fst ((k', v') # ob)). precedes k x"
      by (simp add: precedes_def)
    with Cons.prems a None show ?thesis by simp
  next
    case (Some n')
    show ?thesis
    proof (cases "n' \<le> n")
      case True
      with assms(1) Some have "precedes k' k" by (simp add: precedes_def)
      with later have "\<forall>x \<in> set (map fst (insert_index n k v ob)). precedes k' x"
        by (simp only: set_insert_index) auto
      with Cons.IH [OF rest] a Some True show ?thesis by simp
    next
      case False
      have "precedes k x" if "x \<in> set (map fst ob)" for x
      proof -
        from later that have "precedes k' x" by blast
        with Some False assms(1) show ?thesis
          by (auto simp: precedes_def split: option.splits)
      qed
      moreover from assms(1) Some False have "precedes k k'" by (simp add: precedes_def)
      ultimately have "\<forall>x \<in> set (map fst ((k', v') # ob)). precedes k x" by simp
      with Cons.prems a Some False show ?thesis by simp
    qed
  qed
qed

lemma ordinary_object_Nil: "ordinary_object []"
  by (simp add: ordinary_object_def)

lemma ordinary_object_obj_set:
  assumes "ordinary_object ob"
  shows "ordinary_object (obj_set ob k v)"
proof (cases "k = js ''__proto__''")
  case True
  with assms show ?thesis by (simp add: obj_set_def)
next
  case np: False
  show ?thesis
  proof (cases "k \<in> fst ` set ob")
    case True
    with assms np show ?thesis
      by (simp add: obj_set_def ordinary_object_def map_fst_overwrite)
  next
    case nk: False
    then have nk': "k \<notin> set (map fst ob)" by simp
    show ?thesis
    proof (cases "array_index k")
      case None
      then have "\<forall>x \<in> set (map fst ob). precedes x k"
        by (simp add: precedes_def split: option.splits)
      with assms np nk None show ?thesis
        by (simp add: obj_set_def ordinary_object_def sorted_wrt_append)
    next
      case (Some n)
      from assms have d: "distinct (map fst ob)" and s: "sorted_wrt precedes (map fst ob)"
        and p: "js ''__proto__'' \<notin> set (map fst ob)"
        by (simp_all add: ordinary_object_def)
      from distinct_insert_index [OF nk' d] sorted_insert_index [OF Some s] p np
      have "ordinary_object (insert_index n k v ob)"
        unfolding ordinary_object_def by (simp only: set_insert_index) simp
      with np nk Some show ?thesis by (simp add: obj_set_def)
    qed
  qed
qed

lemma insert_index_last:
  "\<forall>x \<in> set (map fst ob). (\<exists>n'. array_index x = Some n' \<and> n' \<le> n) \<Longrightarrow>
     insert_index n k v ob = ob @ [(k, v)]"
  by (induction ob) auto

lemma obj_set_last:
  assumes "ordinary_object (ob @ [(k, v)])"
  shows "obj_set ob k v = ob @ [(k, v)]"
proof -
  from assms have np: "k \<noteq> js ''__proto__''" and nk: "k \<notin> fst ` set ob"
    and before: "\<forall>x \<in> set (map fst ob). precedes x k"
    by (auto simp: ordinary_object_def sorted_wrt_append)
  show ?thesis
  proof (cases "array_index k")
    case None
    with np nk show ?thesis by (simp add: obj_set_def)
  next
    case (Some n)
    with before have "\<forall>x \<in> set (map fst ob). (\<exists>n'. array_index x = Some n' \<and> n' \<le> n)"
      by (auto simp: precedes_def split: option.splits)
    then have "insert_index n k v ob = ob @ [(k, v)]" by (rule insert_index_last)
    with np nk Some show ?thesis by (simp add: obj_set_def)
  qed
qed

lemma ordinary_object_prefix: "ordinary_object (xs @ ys) \<Longrightarrow> ordinary_object xs"
  by (auto simp: ordinary_object_def sorted_wrt_append)

lemma fold_obj_set_ordinary:
  "ordinary_object (acc @ xs) \<Longrightarrow> fold (\<lambda>(k, v) m. obj_set m k v) xs acc = acc @ xs"
proof (induction xs arbitrary: acc)
  case Nil
  then show ?case by simp
next
  case (Cons x xs)
  obtain k v where x: "x = (k, v)" by (cases x)
  from Cons.prems have o: "ordinary_object ((acc @ [x]) @ xs)" by simp
  then have "ordinary_object (acc @ [(k, v)])" unfolding x by (rule ordinary_object_prefix)
  then have "obj_set acc k v = acc @ [(k, v)]" by (rule obj_set_last)
  with Cons.IH [OF o] x show ?case by simp
qed

lemma set_obj_set: "set (map fst (obj_set ob k v)) \<subseteq> insert k (set (map fst ob))"
  by (auto simp: obj_set_def map_fst_overwrite set_insert_index simp del: set_map
        split: option.splits)

lemma decode_segment_key: "decode_segment seg = Inr (k, v) \<Longrightarrow> k = segment_key seg"
proof (cases "ch CHR ''='' \<in> set seg")
  case True
  assume "decode_segment seg = Inr (k, v)"
  with True show ?thesis
    by (auto simp: decode_segment_def segment_key_def split: sum.splits)
next
  case False
  assume "decode_segment seg = Inr (k, v)"
  with False have ks: "k = seg" by (simp add: decode_segment_def)
  from False have tw: "takeWhile (\<lambda>c. c \<noteq> ch CHR ''='') seg = seg"
    by (induction seg) auto
  show ?thesis unfolding segment_key_def tw ks by (rule refl)
qed

lemma visit_segments_object:
  assumes "visit_segments segs (\<lambda>key val m. obj_set m key val) s = (s', r)"
    and "ordinary_object s"
  shows "ordinary_object s'"
    and "set (map fst s') \<subseteq> set (map fst s) \<union> segment_key ` set segs"
proof -
  from assms have "ordinary_object s' \<and> set (map fst s') \<subseteq> set (map fst s) \<union> segment_key ` set segs"
  proof (induction segs arbitrary: s)
    case Nil
    then show ?case by simp
  next
    case (Cons seg segs)
    show ?case
    proof (cases "decode_segment seg")
      case (Inl e)
      with Cons.prems show ?thesis by auto
    next
      case (Inr kv)
      obtain k v where kv: "kv = (k, v)" by (cases kv)
      from Inr kv have k: "k = segment_key seg" by (simp add: decode_segment_key)
      from Cons.prems Inr kv
      have "visit_segments segs (\<lambda>key val m. obj_set m key val) (obj_set s k v) = (s', r)"
        by simp
      from Cons.IH [OF this ordinary_object_obj_set [OF Cons.prems(2)]]
      have o: "ordinary_object s'"
        and sub: "set (map fst s') \<subseteq> set (map fst (obj_set s k v)) \<union> segment_key ` set segs"
        by blast+
      from sub set_obj_set [of s k v]
      have "set (map fst s') \<subseteq> insert k (set (map fst s)) \<union> segment_key ` set segs"
        by blast
      then have "set (map fst s') \<subseteq> set (map fst s) \<union> segment_key ` set (seg # segs)"
        unfolding k by auto
      with o show ?thesis by blast
    qed
  qed
  then show "ordinary_object s'"
    and "set (map fst s') \<subseteq> set (map fst s) \<union> segment_key ` set segs"
    by simp_all
qed

lemma parseQueryString_segments:
  "parseQueryString q visit s = visit_segments (query_segments q) visit s"
proof (cases q)
  case Nil
  then show ?thesis by (simp add: parseQueryString_def query_segments_def)
next
  case (Cons c rest)
  then show ?thesis
    by (cases "c = ch CHR ''?''")
       (simp_all add: parseQueryString_def query_segments_def startsWith_def slice_def Let_def
          parse_pairs_visit_segments del: str_split.simps)
qed

lemma parseQueryMap_object:
  assumes "parseQueryMap q = Inr m"
  shows "ordinary_object m" and "set (map fst m) \<subseteq> segment_key ` set (query_segments q)"
proof -
  from assms have "parseQueryString q (\<lambda>key val m. obj_set m key val) [] = (m, None)"
    by (auto simp: parseQueryMap_def split: prod.splits option.splits)
  then have "visit_segments (query_segments q) (\<lambda>key val m. obj_set m key val) [] = (m, None)"
    by (simp only: parseQueryString_segments)
  from visit_segments_object [OF this ordinary_object_Nil]
  show "ordinary_object m" and "set (map fst m) \<subseteq> segment_key ` set (query_segments q)"
    by simp_all
qed

lemma str_split_plain: "sep \<notin> set p \<Longrightarrow> str_split p sep = [p]"
  by (induction p) auto

lemma str_split_append:
  "sep \<notin> set p \<Longrightarrow> str_split (p @ sep # rest) sep = p # str_split rest sep"
  by (induction p) auto

lemma str_split_join:
  "ps \<noteq> [] \<Longrightarrow> list_all (\<lambda>p. sep \<notin> set p) ps \<Longrightarrow> str_split (join ps sep) sep = ps"
proof (induction ps sep rule: join.induct)
  case (1 sep)
  then show ?case by simp
next
  case (2 p sep)
  then show ?case by (simp add: str_split_plain)
next
  case (3 p q ps sep)
  then show ?case by (simp add: str_split_append)
qed

lemma decode_segment_encoded:
  assumes "ch CHR ''='' \<notin> set k" and "urlDecode ev = Inr v"
  shows "decode_segment (k @ ch CHR ''='' # ev) = Inr (k, v)"
proof -
  from assms(1) have "takeWhile (\<lambda>c. c \<noteq> ch CHR ''='') (k @ ch CHR ''='' # ev) = k"
    and "dropWhile (\<lambda>c. c \<noteq> ch CHR ''='') (k @ ch CHR ''='' # ev) = ch CHR ''='' # ev"
    by (induction k) auto
  with assms(2) show ?thesis by (simp add: decode_segment_def)
qed

lemma unreserved_key:
  assumes "list_all unreserved k"
  shows "ch CHR ''='' \<notin> set k" and "ch CHR ''&'' \<notin> set k" and "\<not> startsWith (k @ ch CHR ''='' # t) (ch CHR ''?'')"
proof -
  from assms have p: "\<forall>c \<in> set k. plain c"
    by (auto simp: list_all_iff dest: unreserved_plain)
  then show "ch CHR ''='' \<notin> set k" and "ch CHR ''&'' \<notin> set k"
    by (auto simp: plain_def)
  from p show "\<not> startsWith (k @ ch CHR ''='' # t) (ch CHR ''?'')"
    by (cases k) (auto simp: startsWith_def plain_def)
qed

lemma encode_params_decodes:
  assumes "encode_params m = Inr ps" and "list_all (\<lambda>(k, v). list_all unreserved k) m"
  shows "visit_segments ps visit s = (fold (\<lambda>(k, v). visit k v) m s, None)"
    and "list_all (\<lambda>p. ch CHR ''&'' \<notin> set p) ps"
    and "ps = [] \<longleftrightarrow> m = []"
    and "ps \<noteq> [] \<Longrightarrow> hd ps \<noteq> [] \<and> \<not> startsWith (hd ps) (ch CHR ''?'')"
proof -
  from assms have "visit_segments ps visit s = (fold (\<lambda>(k, v). visit k v) m s, None)
      \<and> list_all (\<lambda>p. ch CHR ''&'' \<notin> set p) ps \<and> (ps = [] \<longleftrightarrow> m = [])
      \<and> (ps \<noteq> [] \<longrightarrow> hd ps \<noteq> [] \<and> \<not> startsWith (hd ps) (ch CHR ''?''))"
  proof (induction m arbitrary: ps s)
    case Nil
    then show ?case by simp
  next
    case (Cons a m)
    obtain k v where a: "a = (k, v)" by (cases a)
    from Cons.prems(1) a obtain ev ps' where
      e: "urlEncode v = Inr ev" "encode_params m = Inr ps'" "ps = (k @ ch CHR ''='' # ev) # ps'"
      by (auto split: sum.splits)
    from Cons.prems(2) a have uk: "list_all unreserved k" and um: "list_all (\<lambda>(k, v). list_all unreserved k) m"
      by simp_all
    from urlEncode_urlDecode [OF e(1)] have d: "urlDecode ev = Inr v" and pl: "list_all plain ev"
      by simp_all
    note key = unreserved_key [OF uk]
    from pl have "ch CHR ''&'' \<notin> set ev" by (auto simp: list_all_iff plain_def)
    with key(2) have amp: "ch CHR ''&'' \<notin> set (k @ ch CHR ''='' # ev)" by simp
    from decode_segment_encoded [OF key(1) d] Cons.IH [OF e(2) um, of "visit k v s"] amp key(3) [of ev]
    show ?case by (simp add: e(3) a)
  qed
  then show "visit_segments ps visit s = (fold (\<lambda>(k, v). visit k v) m s, None)"
    and "list_all (\<lambda>p. ch CHR ''&'' \<notin> set p) ps"
    and "ps = [] \<longleftrightarrow> m = []"
    and "ps \<noteq> [] \<Longrightarrow> hd ps \<noteq> [] \<and> \<not> startsWith (hd ps) (ch CHR ''?'')"
    by simp_all
qed

lemma encode_params_total:
  "list_all (\<lambda>(k, v). well_formed v) m \<Longrightarrow> \<exists>ps. encode_params m = Inr ps"
proof (induction m)
  case Nil
  then show ?case by simp
next
  case (Cons a m)
  obtain k v where a: "a = (k, v)" by (cases a)
  from Cons.prems a have "well_formed v" by simp
  then obtain ev where "urlEncode v = Inr ev"
    using well_formed_encodes [of v] by (auto simp: urlEncode_def)
  moreover from Cons obtain ps where "encode_params m = Inr ps" by auto
  ultimately show ?case by (simp add: a)
qed

lemma join_head: "ps \<noteq> [] \<Longrightarrow> hd ps \<noteq> [] \<Longrightarrow> join ps sep \<noteq> [] \<and> hd (join ps sep) = hd (hd ps)"
  by (induction ps sep rule: join.induct) simp_all

lemma parseQueryMap_encodeQueryMap:
  assumes "ordinary_object m" and "list_all (\<lambda>(k, v). list_all unreserved k) m"
    and "encodeQueryMap m = Inr s"
  shows "parseQueryMap s = Inr m"
proof -
  from assms(3) obtain ps where ps: "encode_params m = Inr ps" "s = join ps (ch CHR ''&'')"
    by (auto simp: encodeQueryMap_def split: sum.splits)
  note f = encode_params_decodes [OF ps(1) assms(2)]
  show ?thesis
  proof (cases "ps = []")
    case True
    with f(3) ps(2) show ?thesis by (simp add: parseQueryMap_def parseQueryString_def)
  next
    case False
    from f(4) [OF False] have h: "hd ps \<noteq> []" "\<not> startsWith (hd ps) (ch CHR ''?'')" by simp_all
    from join_head [OF False h(1), of "ch CHR ''&''"] h ps(2)
    have s: "s \<noteq> []" "\<not> startsWith s (ch CHR ''?'')"
      by (auto simp: startsWith_def split: list.splits)
    from str_split_join [OF False f(2)] ps(2) have sp: "str_split s (ch CHR ''&'') = ps" by simp
    from assms(1) have "fold (\<lambda>(k, v) m. obj_set m k v) m [] = m"
      using fold_obj_set_ordinary [of "[]" m] by simp
    with f(1) [of "\<lambda>key val m. obj_set m key val" "[]"] s sp show ?thesis
      by (simp add: parseQueryMap_def parseQueryString_def parse_pairs_visit_segments)
  qed
qed


section \<open>The pairs of a query\<close>

lemma segment_key_whole: "ch CHR ''='' \<notin> set seg \<Longrightarrow> segment_key seg = seg"
  unfolding segment_key_def by (induction seg) auto

lemma decode_segment_pair:
  "decode_segment seg =
     (if well_escaped (segment_value seg) then Inr (segment_key seg, decoded (segment_value seg))
      else Inl URIError)"
proof (cases "ch CHR ''='' \<in> set seg")
  case True
  then show ?thesis
    by (simp add: decode_segment_cases decoded_def)
next
  case False
  then show ?thesis
    by (simp add: decode_segment_cases decoded_def segment_key_whole)
qed

lemma visit_segments_pairs:
  "visit_segments segs visit s
     = (fold (\<lambda>(key, raw). visit key (decoded raw))
          (takeWhile (\<lambda>(key, raw). well_escaped raw)
             (map (\<lambda>seg. (segment_key seg, segment_value seg)) segs)) s,
        if list_all (\<lambda>(key, raw). well_escaped raw)
             (map (\<lambda>seg. (segment_key seg, segment_value seg)) segs)
        then None else Some URIError)"
  by (induction segs arbitrary: s) (simp_all add: decode_segment_pair)

lemma parseQueryString_pairs:
  "parseQueryString query visit s
     = (fold (\<lambda>(key, raw). visit key (decoded raw))
          (takeWhile (\<lambda>(key, raw). well_escaped raw) (raw_pairs query)) s,
        if list_all (\<lambda>(key, raw). well_escaped raw) (raw_pairs query) then None
        else Some URIError)"
  by (simp only: parseQueryString_segments visit_segments_pairs raw_pairs_def)

lemma decodeURIComponent_no_percent:
  "ch CHR ''%'' \<notin> set s \<Longrightarrow> decodeURIComponent s = Inr s"
  by (induction s) auto

lemma urlDecode_no_percent:
  "ch CHR ''%'' \<notin> set raw \<Longrightarrow> urlDecode raw = Inr (map plus_to_space raw)"
proof -
  assume "ch CHR ''%'' \<notin> set raw"
  then have "ch CHR ''%'' \<notin> set (map plus_to_space raw)"
    by (induction raw) (auto simp: plus_to_space_def)
  then have "decodeURIComponent (map plus_to_space raw) = Inr (map plus_to_space raw)"
    by (rule decodeURIComponent_no_percent)
  then show ?thesis
    by (simp add: urlDecode_def plus_to_space_def [abs_def])
qed

lemmas codec_defs =
  ParseHexOctet_def hexval_def leading_ones_def is_continuation_def UTF16EncodeCodePoint_def


section \<open>The lookup pattern and the segments of a query\<close>

lemma escape_key_plain: "plain_key key \<Longrightarrow> escape_key key = key"
proof -
  assume p: "plain_key key"
  have r: "c \<notin> set k \<Longrightarrow> replace_first k c x = k" for k c x
    by (induction k) auto
  from p have "ch CHR ''['' \<notin> set key" "ch CHR '']'' \<notin> set key"
    by (auto simp: plain_key_def list_all_iff syntax_character_def)
  then show ?thesis by (simp add: escape_key_def r)
qed

lemma literal_RegExp_plain:
  assumes "plain_key key"
  shows "new_RegExp literal_RegExp (lookup_pattern key) = Inr key"
proof -
  have "take (length (lookup_pattern key) - 14) (drop 5 (lookup_pattern key)) = key"
    by (simp add: lookup_pattern_def escape_key_plain [OF assms] js_def)
  with assms show ?thesis by (simp add: literal_RegExp_def Let_def)
qed

lemma plain_key_a: "plain_key (js ''a'')"
  by (simp add: plain_key_def js_def syntax_character_def)




























section \<open>Facts about the modal\<close>

lemma emit_simps:
  "player (emit e pg) = player pg" "singleton (emit e pg) = singleton pg"
  "isMobile (emit e pg) = isMobile pg" "pageYOffset (emit e pg) = pageYOffset pg"
  "location_pathname (emit e pg) = location_pathname pg"
  "history_state (emit e pg) = history_state pg"
  "keydown_listeners (emit e pg) = keydown_listeners pg"
  "next_function (emit e pg) = next_function pg"
  "effects (emit e pg) = effects pg @ [e]"
  by (simp_all add: emit_def)

lemma listener_simps:
  "player (addEventListener f pg) = player pg" "player (removeEventListener f pg) = player pg"
  "singleton (addEventListener f pg) = singleton pg" "singleton (removeEventListener f pg) = singleton pg"
  "isMobile (addEventListener f pg) = isMobile pg" "isMobile (removeEventListener f pg) = isMobile pg"
  "effects (addEventListener f pg) = effects pg" "effects (removeEventListener f pg) = effects pg"
  "history_state (addEventListener f pg) = history_state pg"
  "history_state (removeEventListener f pg) = history_state pg"
  "location_pathname (addEventListener f pg) = location_pathname pg"
  "location_pathname (removeEventListener f pg) = location_pathname pg"
  by (simp_all add: addEventListener_def removeEventListener_def)

lemma setVisible_frame:
  "player (setVisible enabled m pg) = player pg"
  "singleton (setVisible enabled m pg) = singleton pg"
  "isMobile (setVisible enabled m pg) = isMobile pg"
  "history_state (setVisible enabled m pg) = history_state pg"
  "location_pathname (setVisible enabled m pg) = location_pathname pg"
  by (simp_all add: setVisible_def Let_def emit_simps listener_simps)

lemma setVisible_effects:
  "effects (setVisible enabled m pg)
     = effects pg
       @ (if player pg \<noteq> None then [SetTimeout (if enabled then PlayVideo else PauseVideo) 100] else [])
       @ [SetTimeout (EnableClass (className (config m) @ js ''--enabled'') enabled)
            (if enabled then 0 else transitionDuration (config m)),
          SetTimeout (EnableClass (className (config m) @ js ''--visible'') enabled)
            (if enabled then transitionDuration (config m) else 0)]"
  by (simp add: setVisible_def Let_def emit_simps listener_simps)

lemma setVisible_player_commands:
  "player_commands (setVisible enabled m pg)
     = player_commands pg
       @ (if player pg \<noteq> None then [SetTimeout (if enabled then PlayVideo else PauseVideo) 100]
          else [])"
  "constructions (setVisible enabled m pg) = constructions pg"
  by (simp_all add: player_commands_def constructions_def setVisible_effects)

lemma pushState_frame:
  "player (pushState v url pg) = player pg" "singleton (pushState v url pg) = singleton pg"
  "isMobile (pushState v url pg) = isMobile pg"
  "player_commands (pushState v url pg) = player_commands pg"
  "constructions (pushState v url pg) = constructions pg"
  by (simp_all add: pushState_def emit_simps player_commands_def constructions_def)

lemma emit_not_player_command:
  "\<not> is_player_command e \<Longrightarrow> player_commands (emit e pg) = player_commands pg"
  "\<not> is_NewPlayer e \<Longrightarrow> constructions (emit e pg) = constructions pg"
  by (simp_all add: emit_simps player_commands_def constructions_def)

lemma setActive_snd:
  "player (snd (setActive active v u m pg)) = player pg"
  "singleton (snd (setActive active v u m pg)) = singleton pg"
  "isMobile (snd (setActive active v u m pg)) = isMobile pg"
  "constructions (snd (setActive active v u m pg)) = constructions pg"
  by (simp_all add: setActive_def Let_def pushState_frame setVisible_frame
        setVisible_player_commands emit_not_player_command emit_simps)

lemma setActive_player_commands:
  "player_commands (snd (setActive active v u m pg))
     = player_commands pg
       @ (if player pg \<noteq> None then [SetTimeout (if active then PlayVideo else PauseVideo) 100]
          else [])"
  by (auto simp: setActive_def Let_def pushState_frame setVisible_frame
        setVisible_player_commands emit_not_player_command emit_simps)

lemma setActive_fst:
  "config (fst (setActive active v u m pg)) = config m"
  "activeVideoId (fst (setActive active v u m pg)) = activeVideoId m"
  by (simp_all add: setActive_def Let_def)

lemma setActive_frame:
  assumes "setActive active v u m pg = (m1, pg1)"
  shows "player pg1 = player pg" "singleton pg1 = singleton pg" "isMobile pg1 = isMobile pg"
    "config m1 = config m" "activeVideoId m1 = activeVideoId m"
    "player_commands pg1
       = player_commands pg
         @ (if player pg \<noteq> None then [SetTimeout (if active then PlayVideo else PauseVideo) 100]
            else [])"
    "constructions pg1 = constructions pg"
  using setActive_snd [of active v u m pg] setActive_fst [of active v u m pg]
    setActive_player_commands [of active v u m pg]
  by (simp_all add: assms)

lemma play_first:
  assumes "\<not> (useHandlerOnMobile (config m) \<and> isMobile pg)" and "player pg = None"
    and "YouTubeModal_play v u t m pg = (m1, pg1)"
  shows "\<exists>vars. player pg1 = Some (Player v vars)
           \<and> player_commands pg1 = player_commands pg @ [NewPlayer v vars]"
    and "activeVideoId m1 = Some v" and "config m1 = config m" and "isMobile pg1 = isMobile pg"
    and "constructions pg1 = Suc (constructions pg)"
proof -
  obtain m' pg' where sa: "setActive True (Some v) u m pg = (m', pg')"
    by (cases "setActive True (Some v) u m pg")
  note fr = setActive_frame [OF sa]
  from assms sa fr show "\<exists>vars. player pg1 = Some (Player v vars)
           \<and> player_commands pg1 = player_commands pg @ [NewPlayer v vars]"
    by (auto simp: YouTubeModal_play_def Let_def emit_simps player_commands_def)
  from assms sa fr show "activeVideoId m1 = Some v" "config m1 = config m" "isMobile pg1 = isMobile pg"
    by (auto simp: YouTubeModal_play_def Let_def emit_simps)
  from assms sa fr show "constructions pg1 = Suc (constructions pg)"
    by (auto simp: YouTubeModal_play_def Let_def emit_simps constructions_def)
qed

lemma play_again:
  assumes "\<not> (useHandlerOnMobile (config m) \<and> isMobile pg)" and "player pg \<noteq> None"
    and "YouTubeModal_play v u t m pg = (m1, pg1)"
  shows "player pg1 = player pg" and "activeVideoId m1 = Some v"
    and "player_commands pg1
           = player_commands pg @ [SetTimeout PlayVideo 100]
             @ (if activeVideoId m = Some v then [] else [LoadVideoById v 0 (js ''large'')])"
    and "constructions pg1 = constructions pg"
proof -
  obtain m' pg' where sa: "setActive True (Some v) u m pg = (m', pg')"
    by (cases "setActive True (Some v) u m pg")
  note fr = setActive_frame [OF sa]
  from assms sa fr show "player pg1 = player pg" "activeVideoId m1 = Some v"
    by (auto simp: YouTubeModal_play_def Let_def emit_simps split: if_splits)
  from assms sa fr show "player_commands pg1
           = player_commands pg @ [SetTimeout PlayVideo 100]
             @ (if activeVideoId m = Some v then [] else [LoadVideoById v 0 (js ''large'')])"
    by (auto simp: YouTubeModal_play_def Let_def emit_simps player_commands_def split: if_splits)
  from assms sa fr show "constructions pg1 = constructions pg"
    by (auto simp: YouTubeModal_play_def Let_def emit_simps constructions_def split: if_splits)
qed

lemma play_invariant:
  assumes "constructed_once pg" and "YouTubeModal_play v u t m pg = (m1, pg1)"
  shows "constructed_once pg1"
proof (cases "useHandlerOnMobile (config m) \<and> isMobile pg")
  case True
  with assms show ?thesis
    by (auto simp: YouTubeModal_play_def Let_def constructed_once_def constructions_def emit_simps)
next
  case False
  show ?thesis
  proof (cases "player pg = None")
    case True
    from play_first(1,5) [OF False True assms(2)] assms(1) True show ?thesis
      by (auto simp: constructed_once_def)
  next
    case nonnull: False
    from play_again(1,4) [OF False nonnull assms(2)] assms(1) nonnull show ?thesis
      by (auto simp: constructed_once_def)
  qed
qed

lemma setActive_invariant:
  "constructed_once pg \<Longrightarrow> setActive a v u m pg = (m1, pg1) \<Longrightarrow> constructed_once pg1"
  by (simp add: constructed_once_def setActive_frame)

lemma setVisible_invariant:
  "constructed_once (setVisible enabled m pg) = constructed_once pg"
  by (simp add: constructed_once_def setVisible_frame setVisible_player_commands)

lemma removeEventListener_invariant:
  "constructed_once (removeEventListener f pg) = constructed_once pg"
  by (simp add: constructed_once_def constructions_def listener_simps)

lemma onHistoryChange_invariant:
  assumes "constructed_once pg" and "onHistoryChange st m pg = (m1, pg1)"
  shows "constructed_once pg1"
proof (cases "\<exists>v. st = Some (Str v) \<and> v \<noteq> []")
  case True
  then obtain v where "st = Some (Str v)" "v \<noteq> []" by blast
  with assms(2) have "YouTubeModal_play v (Some False) None m pg = (m1, pg1)"
    by (simp add: onHistoryChange_def)
  with assms(1) show ?thesis by (rule play_invariant)
next
  case False
  with assms(2) have "pg1 = setVisible False m pg"
    by (auto simp: onHistoryChange_def split: option.splits jsval.splits if_splits)
  with assms(1) show ?thesis by (simp add: setVisible_invariant)
qed

lemma with_singleton_invariant:
  assumes "\<And>m m1 pg pg1. constructed_once pg \<Longrightarrow> method m pg = (m1, pg1) \<Longrightarrow> constructed_once pg1"
    and "constructed_once pg"
  shows "constructed_once (with_singleton method pg)"
proof (cases "singleton pg")
  case None
  with assms(2) show ?thesis by (simp add: with_singleton_def)
next
  case (Some m)
  obtain m1 pg1 where r: "method m pg = (m1, pg1)" by (cases "method m pg")
  from assms(1) [OF assms(2) r] have "constructed_once pg1" .
  then have "constructed_once (pg1\<lparr>singleton := Some m1\<rparr>)"
    by (simp add: constructed_once_def constructions_def)
  with Some r show ?thesis by (simp add: with_singleton_def)
qed

lemma keyToggle_invariant:
  "constructed_once pg \<Longrightarrow> constructed_once (keyToggle f k pg)"
proof -
  assume a: "constructed_once pg"
  have "constructed_once (with_singleton (setActive False None None) pg)"
    by (rule with_singleton_invariant [OF _ a]) (rule setActive_invariant)
  with a show ?thesis
    by (simp add: keyToggle_def removeEventListener_invariant)
qed

lemma run_listeners_invariant:
  "constructed_once pg \<Longrightarrow> constructed_once (run_listeners fs k pg)"
  by (induction fs arbitrary: pg) (simp_all add: keyToggle_invariant)

lemma init_invariant:
  "constructed_once pg \<Longrightarrow> constructed_once (init merge opt pg)"
  by (auto simp: init_def YouTubeModal_def Let_def constructed_once_def constructions_def emit_simps
      split: option.splits)

lemma step_invariant:
  assumes "constructed_once pg"
  shows "constructed_once (step merge a pg)"
proof (cases a)
  case (Init opt)
  with assms show ?thesis by (simp add: init_invariant)
next
  case (Play v)
  show ?thesis
  proof (cases "singleton pg")
    case None
    with Play assms show ?thesis by (simp add: play_def)
  next
    case (Some m)
    obtain m1 pg1 where r: "YouTubeModal_play v None None m pg = (m1, pg1)"
      by (cases "YouTubeModal_play v None None m pg")
    from play_invariant [OF assms r] have "constructed_once (pg1\<lparr>singleton := Some m1\<rparr>)"
      by (simp add: constructed_once_def constructions_def)
    with Play Some r show ?thesis by (simp add: play_def)
  qed
next
  case ClickClose
  have "constructed_once (with_singleton (setActive False None None) pg)"
    by (rule with_singleton_invariant [OF _ assms]) (rule setActive_invariant)
  with ClickClose show ?thesis by (simp add: click_close_def)
next
  case (ClickVideo v t)
  have "constructed_once (with_singleton (YouTubeModal_play w (Some False) (Some t)) pg)" for w
    by (rule with_singleton_invariant [OF _ assms]) (rule play_invariant)
  with ClickVideo assms show ?thesis by (simp add: click_video_def split: option.splits)
next
  case (KeyDown k)
  with assms show ?thesis by (simp add: keydown_def run_listeners_invariant)
next
  case (PopState st)
  from assms have a: "constructed_once (pg\<lparr>history_state := st\<rparr>)"
    by (simp add: constructed_once_def constructions_def)
  have "constructed_once (with_singleton (onHistoryChange st) (pg\<lparr>history_state := st\<rparr>))"
    by (rule with_singleton_invariant [OF _ a]) (rule onHistoryChange_invariant)
  with PopState a show ?thesis by (simp add: popstate_def Let_def split: option.splits)
next
  case (Scroll y)
  with assms show ?thesis by (simp add: constructed_once_def constructions_def)
qed

lemma run_invariant:
  "constructed_once pg \<Longrightarrow> constructed_once (run merge actions pg)"
  unfolding run_def by (induction actions arbitrary: pg) (simp_all add: step_invariant)

lemma loaded_page_invariant: "constructed_once (loaded_page mobile pathname state)"
  by (simp add: constructed_once_def constructions_def loaded_page_def)


section \<open>Facts about \<open>updateParamsFromUrl\<close>\<close>

lemma getAttribute_frame:
  "document (snd (getAttribute i a b)) = document b"
  "location_href (snd (getAttribute i a b)) = location_href b"
  "fst (getAttribute i a b) = (document b ! i) a"
  by (simp_all add: getAttribute_def)

lemma update_element_frame:
  assumes "update_element api c vals i b = (b1, r)" and "j < length (document b)"
    and "skipped (document b ! j) (attr c)"
  shows "document b1 ! j = document b ! j" and "length (document b1) = length (document b)"
proof -
  have "document b1 ! j = document b ! j \<and> length (document b1) = length (document b)"
  proof (cases "j = i")
    case True
    with assms(3) have "\<not> (truthy ((document b ! i) (attr c))
        \<and> \<not> startsWith (case (document b ! i) (attr c) of None \<Rightarrow> [] | Some h \<Rightarrow> h) (ch CHR ''#''))"
      by (auto simp: skipped_def truthy_def split: option.splits)
    with assms(1) show ?thesis
      by (auto simp: update_element_def getAttribute_def split: prod.splits)
  next
    case False
    with assms(1) show ?thesis
      by (auto simp: update_element_def getAttribute_def setAttribute_def
            split: prod.splits if_splits sum.splits)
  qed
  then show "document b1 ! j = document b ! j" and "length (document b1) = length (document b)"
    by simp_all
qed

lemma update_elements_frame:
  assumes "j < length (document b)" and "skipped (document b ! j) (attr c)"
  shows "document (fst (update_elements api c vals els b)) ! j = document b ! j"
  using assms
proof (induction els arbitrary: b)
  case Nil
  then show ?case by simp
next
  case (Cons i els)
  obtain b1 r where u: "update_element api c vals i b = (b1, r)"
    by (cases "update_element api c vals i b")
  note fr = update_element_frame [OF u Cons.prems]
  show ?case
  proof (cases r)
    case None
    from fr Cons.prems have "j < length (document b1)" "skipped (document b1 ! j) (attr c)"
      by simp_all
    from Cons.IH [OF this] fr u None show ?thesis by simp
  next
    case (Some e)
    with u fr show ?thesis by simp
  qed
qed

section \<open>Decoding a query string\<close>

text \<open>
  Claim C6, as the code has it. The claim says that \<open>parseQueryString\<close> (the
  specification's \<open>decodePairs\<close>) calls the visitor exactly once per pair, from left to
  right. The value of a pair is decoded before the visitor is called, and a malformed
  percent-escape makes \<open>decodeURIComponent\<close> throw: the query \<open>a=%&b=2\<close> has the two pairs
  \<open>(a, %)\<close> and \<open>(b, 2)\<close>, and the visitor is never called.
\<close>

theorem parseQueryString_stops_at_malformed_escape:
  "raw_pairs (js ''a=%&b=2'') = [(js ''a'', js ''%''), (js ''b'', js ''2'')]
   \<and> parseQueryString (js ''a=%&b=2'') record_visit [] = ([], Some URIError)"
  by (simp add: eval_defs raw_pairs_def query_segments_def segment_key_def segment_value_def)

text \<open>
  Claim C6, amended. The pairs of a query are those of \<open>raw_pairs\<close>: none for the empty
  string; otherwise one leading \<open>?\<close> is stripped, the rest is split on \<open>&\<close>, every segment
  is cut at its first \<open>=\<close> into key and raw value, and a segment without \<open>=\<close> is the key
  with the empty value. \<open>parseQueryString\<close> calls the visitor once per pair, from left to
  right, with the key as it stands and the decoded value, up to the first pair whose raw
  value has a malformed percent-escape: there it throws a URIError, and neither that pair
  nor a later one is visited. Decoding a value replaces every \<open>+\<close> by a space where the value
  has no \<open>%\<close>, and gives back whatever \<open>encodeURIComponent\<close> has encoded. On \<open>a\<close> the visitor
  is called once with the key \<open>a\<close> and the empty value, on \<open>a=1&b=2\<close> with \<open>(a, 1)\<close> and then
  \<open>(b, 2)\<close>, on the empty string never; in the last example a value has a plus sign and
  escapes of \<open>&\<close>, of \<open>=\<close> and of a two-octet character, a key has an escape, which stays as
  it is, one segment is empty and one has two \<open>=\<close>.
\<close>

theorem parseQueryString_visits_pairs:
  "parseQueryString query visit s
     = (fold (\<lambda>(key, raw). visit key (decoded raw))
          (takeWhile (\<lambda>(key, raw). well_escaped raw) (raw_pairs query)) s,
        if list_all (\<lambda>(key, raw). well_escaped raw) (raw_pairs query) then None
        else Some URIError)
   \<and> (ch CHR ''%'' \<notin> set raw \<longrightarrow> urlDecode raw = Inr (map plus_to_space raw))
   \<and> (encodeURIComponent v = Inr e \<longrightarrow> urlDecode e = Inr v)
   \<and> raw_pairs [] = []
   \<and> raw_pairs (js ''a'') = [(js ''a'', [])]
   \<and> raw_pairs (js ''?a=1&b=2'') = [(js ''a'', js ''1''), (js ''b'', js ''2'')]
   \<and> parseQueryString [] record_visit [] = ([], None)
   \<and> parseQueryString (js ''a'') record_visit [] = ([(js ''a'', [])], None)
   \<and> parseQueryString (js ''a=1&b=2'') record_visit []
       = ([(js ''a'', js ''1''), (js ''b'', js ''2'')], None)
   \<and> parseQueryString (js ''?q=a+b%26c%3D%C3%A9&k%20=+&&x=y=z'') record_visit []
       = ([(js ''q'', js ''a b&c='' @ [0xE9]), (js ''k%20'', js '' ''), ([], []),
           (js ''x'', js ''y=z'')], None)"
proof -
  have "encodeURIComponent v = Inr e \<longrightarrow> urlDecode e = Inr v"
    using urlEncode_urlDecode [of v e] by (simp add: urlEncode_def)
  moreover have "raw_pairs [] = []" "raw_pairs (js ''a'') = [(js ''a'', [])]"
    "raw_pairs (js ''?a=1&b=2'') = [(js ''a'', js ''1''), (js ''b'', js ''2'')]"
    by (simp_all add: raw_pairs_def query_segments_def segment_key_def segment_value_def js_def)
  moreover have "parseQueryString [] record_visit [] = ([], None)"
    by (simp add: parseQueryString_def)
  moreover have "parseQueryString (js ''a'') record_visit [] = ([(js ''a'', [])], None)"
    by (simp add: eval_defs)
  moreover have "parseQueryString (js ''a=1&b=2'') record_visit []
      = ([(js ''a'', js ''1''), (js ''b'', js ''2'')], None)"
    by (simp add: eval_defs)
  moreover have "parseQueryString (js ''?q=a+b%26c%3D%C3%A9&k%20=+&&x=y=z'') record_visit []
       = ([(js ''q'', js ''a b&c='' @ [0xE9]), (js ''k%20'', js '' ''), ([], []),
           (js ''x'', js ''y=z'')], None)"
    by (simp add: eval_defs codec_defs)
  ultimately show ?thesis
    using parseQueryString_pairs [of query visit s] urlDecode_no_percent [of raw] by simp
qed

text \<open>
  The theorem on the query \<open>a=1+2&b\<close>, on the raw value \<open>1+2\<close> and on the value \<open>1 &2\<close>
  with its encoding.
\<close>

theorem parseQueryString_visits_pairs_witness:
  "parseQueryString (js ''a=1+2&b'') record_visit []
     = (fold (\<lambda>(key, raw). record_visit key (decoded raw))
          (takeWhile (\<lambda>(key, raw). well_escaped raw) (raw_pairs (js ''a=1+2&b''))) [],
        if list_all (\<lambda>(key, raw). well_escaped raw) (raw_pairs (js ''a=1+2&b'')) then None
        else Some URIError)
   \<and> urlDecode (js ''1+2'') = Inr (js ''1 2'')
   \<and> encodeURIComponent (js ''1 &2'') = Inr (js ''1%20%262'')
   \<and> urlDecode (js ''1%20%262'') = Inr (js ''1 &2'')"
proof -
  have h1: "ch CHR ''%'' \<notin> set (js ''1+2'')" by (simp add: js_def)
  have h2: "encodeURIComponent (js ''1 &2'') = Inr (js ''1%20%262'')"
    by (simp add: js_def unreserved_def is_high_surrogate_def is_low_surrogate_def
          utf8_encode_def percent_octet_def hexdigit_def)
  have m: "map plus_to_space (js ''1+2'') = js ''1 2''" by (simp add: js_def plus_to_space_def)
  from parseQueryString_visits_pairs [of "js ''a=1+2&b''" record_visit "[]" "js ''1+2''"
      "js ''1 &2''" "js ''1%20%262''"] h1 h2 m
  show ?thesis by simp
qed

text \<open>
  Claim C10. The emptiness test of \<open>parseQueryString\<close> comes before the leading \<open>?\<close> is
  stripped, so the one-character query \<open>?\<close> is not empty input: the visitor is called once,
  with the empty key and the empty value, and \<open>parseQueryMap\<close> returns the object whose
  single entry maps the empty key to the empty value, where the empty string gives the
  empty object.
\<close>

theorem parseQueryString_bare_question_mark:
  "parseQueryString (js ''?'') record_visit [] = ([([], [])], None)
   \<and> parseQueryMap (js ''?'') = Inr [([], [])]
   \<and> parseQueryMap [] = Inr []"
  by (simp add: eval_defs)

text \<open>
  Claim C3, as the code has it. The claim says that the decoding operations never throw,
  also on values with malformed percent-escapes. \<open>urlDecode_\<close> hands the value to
  \<open>decodeURIComponent\<close>, which throws a URIError on a malformed escape, and nothing catches
  it: on the query \<open>a=%\<close> all three operations throw. \<open>getParameterValue\<close> moreover builds a
  \<open>RegExp\<close> from its key, of which only the first \<open>[\<close> and the first \<open>]\<close> are escaped: for the
  key \<open>(\<close> the constructor throws a SyntaxError.
\<close>

theorem decoding_throws_on_malformed_escape:
  "snd (parseQueryString (js ''a=%'') record_visit []) = Some URIError
   \<and> parseQueryMap (js ''a=%'') = Inl URIError
   \<and> getParameterValue literal_RegExp (js ''a'') (Some (js ''?a=%'')) [] = Inl URIError
   \<and> getParameterValue literal_RegExp (js ''('') (Some (js ''?a=1'')) [] = Inl SyntaxError"
proof -
  have "snd (parseQueryString (js ''a=%'') record_visit []) = Some URIError"
    "parseQueryMap (js ''a=%'') = Inl URIError"
    by (simp_all add: eval_defs)
  moreover have "getParameterValue literal_RegExp (js ''a'') (Some (js ''?a=%'')) [] = Inl URIError"
    by (simp add: getParameterValue_def literal_RegExp_plain [OF plain_key_a] or_href_def)
       (simp add: literal_RegExp_def js_def first_group_def truthy_def urlDecode_def
          decode_escape_def Let_def)
  moreover have "getParameterValue literal_RegExp (js ''('') (Some (js ''?a=1'')) [] = Inl SyntaxError"
    by (simp add: getParameterValue_def literal_RegExp_def lookup_pattern_def escape_key_def
          plain_key_def syntax_character_def js_def)
  ultimately show ?thesis by simp
qed

text \<open>
  Claim C3, amended. \<open>parseQueryString\<close> and \<open>parseQueryMap\<close> throw exactly when the raw
  value of a segment has a malformed percent-escape, and what they throw is a URIError (a
  segment without \<open>=\<close> has the empty value, which is well escaped; the empty string gives
  the empty object). \<open>getParameterValue\<close> throws in two cases and no other, whatever the
  \<open>RegExp\<close> of the platform does: when \<open>new RegExp\<close> throws on the pattern built from the key,
  with what that throws; and when the first group of the match is not well escaped, with a
  URIError.
\<close>

theorem decoding_throws_only_on_malformed_escape:
  "snd (parseQueryString query visit s)
     = (if list_all (\<lambda>seg. well_escaped (segment_value seg)) (query_segments query)
        then None else Some URIError)
   \<and> (\<exists>m. parseQueryMap query = Inr m)
     = list_all (\<lambda>seg. well_escaped (segment_value seg)) (query_segments query)
   \<and> (parseQueryMap query = Inl e)
     = (e = URIError
        \<and> \<not> list_all (\<lambda>seg. well_escaped (segment_value seg)) (query_segments query))
   \<and> (getParameterValue rx key opt_uri href = Inl e)
     = (new_RegExp rx (lookup_pattern key) = Inl e
        \<or> e = URIError
          \<and> (\<exists>regex raw. new_RegExp rx (lookup_pattern key) = Inr regex
                \<and> first_group (exec rx regex (or_href opt_uri href)) = Some raw
                \<and> \<not> well_escaped raw))
   \<and> parseQueryMap [] = Inr []"
proof -
  have "parseQueryMap [] = Inr []"
    by (simp add: parseQueryMap_def parseQueryString_def)
  then show ?thesis
    using parseQueryString_outcome [of query visit s]
      parseQueryMap_outcome(1) [of query] parseQueryMap_outcome(2) [of query e]
      getParameterValue_outcome [of rx key opt_uri href e]
    by simp
qed


section \<open>Looking up one key\<close>





section \<open>Decoding, encoding and decoding again\<close>

text \<open>
  Claim C5, as the code has it. The claim says that for every query whose keys need no
  percent-encoding, \<open>decodeMap(encodeMap(decodeMap(q)))\<close> equals \<open>decodeMap(q)\<close>. A value may
  hold an unpaired surrogate: \<open>decodeURIComponent\<close> passes it through, and
  \<open>encodeURIComponent\<close> throws a URIError on it. For the query \<open>a=\<close> followed by the code
  unit \<open>D800\<close> the first decoding returns a map and the encoding throws.
\<close>

theorem encodeQueryMap_throws_on_unpaired_surrogate:
  "plain_keys [ch CHR ''a'', ch CHR ''='', 0xD800]
   \<and> parseQueryMap [ch CHR ''a'', ch CHR ''='', 0xD800] = Inr [(js ''a'', [0xD800])]
   \<and> decode_encode_decode [ch CHR ''a'', ch CHR ''='', 0xD800] = Inl URIError"
  by code_simp

text \<open>
  Claim C5, amended. For every query whose keys are made of characters that need no
  percent-encoding and whose decoded values hold no unpaired surrogate,
  \<open>decodeMap(encodeMap(decodeMap(q)))\<close> is \<open>decodeMap(q)\<close>: when the first decoding returns a
  map, the encoding returns and decoding its result gives the same map, entries and order,
  whatever reserved characters the values hold; when the first decoding throws, so does the
  whole.
\<close>

theorem decode_encode_decode_stable:
  assumes "plain_keys q" and "well_formed_values q"
  shows "decode_encode_decode q = parseQueryMap q"
proof (cases "parseQueryMap q")
  case (Inl e)
  then show ?thesis by (simp add: decode_encode_decode_def)
next
  case (Inr m)
  note ob = parseQueryMap_object [OF Inr]
  from assms(1) ob(2) have keys: "list_all (\<lambda>(k, v). list_all unreserved k) m"
    by (fastforce simp: plain_keys_def list_all_iff)
  from assms(2) Inr have "list_all (\<lambda>(k, v). well_formed v) m"
    by (simp add: well_formed_values_def)
  then obtain ps where "encode_params m = Inr ps"
    using encode_params_total by blast
  then have e: "encodeQueryMap m = Inr (join ps (ch CHR ''&''))"
    by (simp add: encodeQueryMap_def)
  from parseQueryMap_encodeQueryMap [OF ob(1) keys e] Inr e show ?thesis
    by (simp add: decode_encode_decode_def)
qed

text \<open>
  The theorem on a query with an index key, a repeated key, and values with an escaped
  ampersand, a plus sign and a two-octet character.
\<close>

theorem decode_encode_decode_stable_witness:
  "decode_encode_decode (js ''b=%26x&a=1+2&10=%C3%A9&b=%3D'')
     = parseQueryMap (js ''b=%26x&a=1+2&10=%C3%A9&b=%3D'')
   \<and> parseQueryMap (js ''b=%26x&a=1+2&10=%C3%A9&b=%3D'')
     = Inr [(js ''10'', [0xE9]), (js ''b'', js ''=''), (js ''a'', js ''1 2'')]"
proof -
  have h1: "plain_keys (js ''b=%26x&a=1+2&10=%C3%A9&b=%3D'')"
    by code_simp
  have v: "parseQueryMap (js ''b=%26x&a=1+2&10=%C3%A9&b=%3D'')
     = Inr [(js ''10'', [0xE9]), (js ''b'', js ''=''), (js ''a'', js ''1 2'')]"
    by (simp add: eval_defs ParseHexOctet_def hexval_def leading_ones_def
          is_continuation_def UTF16EncodeCodePoint_def is_digit_def decimal_value_def)
  have h2: "well_formed_values (js ''b=%26x&a=1+2&10=%C3%A9&b=%3D'')"
    unfolding well_formed_values_def v
    by (simp add: js_def is_high_surrogate_def is_low_surrogate_def)
  from decode_encode_decode_stable [OF h1 h2] v show ?thesis by simp
qed


section \<open>The modal\<close>

text \<open>
  Claim C1, as the code has it. The claim says that a second \<open>play(v)\<close> is a no-op on the
  player. \<open>play\<close> calls \<open>setActive_\<close> and so \<open>setVisible(true)\<close> before it looks at the
  video id, and \<open>setVisible\<close>, finding a player, sets the timer that calls
  \<open>player.playVideo()\<close>: after \<open>init\<close> and \<open>play(abc)\<close> on a desktop page the player has been
  constructed and nothing else, after a second \<open>play(abc)\<close> it is also told to play.
\<close>

theorem play_again_schedules_playVideo:
  "player_commands (run keep_given [Init None, Play (js ''abc'')] (loaded_page False (js ''/'') None))
     = [NewPlayer (js ''abc'') (playerVars defaultConfig)]
   \<and> player_commands (run keep_given [Init None, Play (js ''abc''), Play (js ''abc'')]
        (loaded_page False (js ''/'') None))
     = [NewPlayer (js ''abc'') (playerVars defaultConfig), SetTimeout PlayVideo 100]"
  by code_simp

text \<open>
  Claim C1, amended. With the mobile redirect not taken and no player yet, \<open>play(v)\<close>
  constructs the player handle and does nothing else to the player. A second \<open>play(v)\<close>
  right after it constructs nothing and sends no \<open>loadVideoById\<close>: the handle and the
  active video id stay as they are, and all it does to the player is to set the timer of
  \<open>setVisible\<close> that calls \<open>playVideo\<close>. \<open>play(w)\<close> for another id \<open>w\<close> after \<open>play(v)\<close>
  gives the one construction, that timer, and then exactly one \<open>loadVideoById\<close>, the active
  video id ending as \<open>w\<close>. Whatever happens to a page after it is loaded, at most one
  player handle is constructed.
\<close>

theorem play_constructs_once:
  assumes "\<not> (useHandlerOnMobile (config m) \<and> isMobile pg)" and "player pg = None"
    and "YouTubeModal_play v u1 t1 m pg = (m1, pg1)"
    and "YouTubeModal_play v u2 t2 m1 pg1 = (m2, pg2)"
    and "YouTubeModal_play w u3 t3 m1 pg1 = (m3, pg3)" and "w \<noteq> v"
  shows "(\<exists>vars. player_commands pg1 = player_commands pg @ [NewPlayer v vars]
            \<and> player_commands pg2
                = player_commands pg @ [NewPlayer v vars, SetTimeout PlayVideo 100]
            \<and> player_commands pg3
                = player_commands pg
                  @ [NewPlayer v vars, SetTimeout PlayVideo 100, LoadVideoById w 0 (js ''large'')])
         \<and> player pg2 = player pg1 \<and> activeVideoId m1 = Some v \<and> activeVideoId m2 = Some v
         \<and> activeVideoId m3 = Some w
         \<and> constructions (run merge actions (loaded_page mobile pathname state)) \<le> 1"
proof -
  from play_first [OF assms(1,2,3)] obtain vars where
    p1: "player pg1 = Some (Player v vars)"
      "player_commands pg1 = player_commands pg @ [NewPlayer v vars]"
      "activeVideoId m1 = Some v" "config m1 = config m" "isMobile pg1 = isMobile pg"
    by blast
  from assms(1) p1 have nm: "\<not> (useHandlerOnMobile (config m1) \<and> isMobile pg1)" by simp
  from p1 have np: "player pg1 \<noteq> None" by simp
  from play_again(1,2,3) [OF nm np assms(4)] p1
  have p2: "player pg2 = player pg1" "activeVideoId m2 = Some v"
    "player_commands pg2 = player_commands pg @ [NewPlayer v vars, SetTimeout PlayVideo 100]"
    by simp_all
  from play_again(2,3) [OF nm np assms(5)] p1 assms(6)
  have p3: "activeVideoId m3 = Some w"
    "player_commands pg3
       = player_commands pg
         @ [NewPlayer v vars, SetTimeout PlayVideo 100, LoadVideoById w 0 (js ''large'')]"
    by simp_all
  have "constructed_once (run merge actions (loaded_page mobile pathname state))"
    by (rule run_invariant) (rule loaded_page_invariant)
  then have "constructions (run merge actions (loaded_page mobile pathname state)) \<le> 1"
    by (simp add: constructed_once_def)
  with p1 p2 p3 show ?thesis by blast
qed

text \<open>The theorem at \<open>play(abc)\<close>, \<open>play(abc)\<close> and \<open>play(xyz)\<close> on a freshly loaded desktop page.\<close>

theorem play_constructs_once_witness:
  "(\<exists>vars.
      player_commands (snd (YouTubeModal_play (js ''abc'') None None desktop_modal
                              (loaded_page False (js ''/'') None)))
        = [NewPlayer (js ''abc'') vars]
      \<and> player_commands
          (snd (YouTubeModal_play (js ''xyz'') None None
                  (fst (YouTubeModal_play (js ''abc'') None None desktop_modal
                          (loaded_page False (js ''/'') None)))
                  (snd (YouTubeModal_play (js ''abc'') None None desktop_modal
                          (loaded_page False (js ''/'') None)))))
        = [NewPlayer (js ''abc'') vars, SetTimeout PlayVideo 100,
           LoadVideoById (js ''xyz'') 0 (js ''large'')])
   \<and> constructions (run keep_given [Init None, Play (js ''abc''), Play (js ''abc'')]
                       (loaded_page False (js ''/'') None)) \<le> 1"
proof -
  let ?pg = "loaded_page False (js ''/'') None"
  let ?r1 = "YouTubeModal_play (js ''abc'') None None desktop_modal ?pg"
  let ?r2 = "YouTubeModal_play (js ''abc'') None None (fst ?r1) (snd ?r1)"
  let ?r3 = "YouTubeModal_play (js ''xyz'') None None (fst ?r1) (snd ?r1)"
  have h1: "\<not> (useHandlerOnMobile (config desktop_modal) \<and> isMobile ?pg)"
    by (simp add: loaded_page_def)
  have h2: "player ?pg = None" by (simp add: loaded_page_def)
  have h3: "?r1 = (fst ?r1, snd ?r1)" by simp
  have h4: "?r2 = (fst ?r2, snd ?r2)" by simp
  have h5: "?r3 = (fst ?r3, snd ?r3)" by simp
  have h6: "js ''xyz'' \<noteq> js ''abc''" by (simp add: js_def)
  have e: "player_commands ?pg = []" by (simp add: player_commands_def loaded_page_def)
  from play_constructs_once [OF h1 h2 h3 h4 h5 h6, of keep_given
      "[Init None, Play (js ''abc''), Play (js ''abc'')]" False "js ''/''" None]
  show ?thesis unfolding e by auto
qed

text \<open>
  Claim C8. \<open>init\<close> is idempotent: called while the singleton exists it leaves the page as
  it is, so a second \<open>init\<close>, whatever its configuration, changes nothing of what the first
  one set up; and the module's \<open>play\<close> called before any \<open>init\<close> throws.
\<close>

theorem init_idempotent:
  "(singleton pg \<noteq> None \<longrightarrow> init merge opt_config pg = pg)
   \<and> init merge opt_config' (init merge opt_config pg) = init merge opt_config pg
   \<and> (singleton pg = None \<longrightarrow>
        play videoId pg = Inl (Thrown (js ''youtubemodal.init must be run first.'')))"
proof -
  have a: "singleton pg \<noteq> None \<Longrightarrow> init merge opt_config pg = pg" for pg :: page
    by (simp add: init_def)
  have "singleton (init merge opt_config pg) \<noteq> None"
    by (simp add: init_def split: prod.splits)
  then have "init merge opt_config' (init merge opt_config pg) = init merge opt_config pg"
    by (simp add: init_def)
  moreover have "singleton pg = None \<Longrightarrow>
      play videoId pg = Inl (Thrown (js ''youtubemodal.init must be run first.''))"
    by (simp add: play_def)
  ultimately show ?thesis using a by blast
qed

text \<open>The theorem on a freshly loaded page: two calls of \<open>init\<close>, and \<open>play\<close> before \<open>init\<close>.\<close>

theorem init_idempotent_witness:
  "init keep_given (Some history_config) (init keep_given None (loaded_page False (js ''/'') None))
     = init keep_given None (loaded_page False (js ''/'') None)
   \<and> play (js ''abc'') (loaded_page False (js ''/'') None)
     = Inl (Thrown (js ''youtubemodal.init must be run first.''))"
proof -
  have s1: "singleton (init keep_given None (loaded_page False (js ''/'') None)) \<noteq> None"
    by (simp add: init_def split: prod.splits)
  have s2: "singleton (loaded_page False (js ''/'') None) = None"
    by (simp add: loaded_page_def)
  from init_idempotent [of "init keep_given None (loaded_page False (js ''/'') None)"
      keep_given "Some history_config" None "js ''abc''"] s1
    init_idempotent [of "loaded_page False (js ''/'') None" keep_given None None "js ''abc''"] s2
  show ?thesis by simp
qed

text \<open>
  Claim C2, at the input where the code departs from it. The claim says that with the
  history on no two consecutive pushed entries carry the same video id, the \<open>null\<close> entry
  of a close included. \<open>setActive_\<close> looks at the current entry before it pushes on
  opening only; closing pushes \<open>null\<close> each time. Two clicks on the close button push
  \<open>null\<close> twice, and so does one Escape after two videos were played, since both
  \<open>_keyToggle\<close> listeners are still registered.
\<close>

theorem close_pushes_null_twice:
  "pushed (run keep_given [Init (Some history_config), ClickClose, ClickClose]
             (loaded_page False (js ''/'') None)) = [Null, Null]
   \<and> pushed (run keep_given [Init (Some history_config), Play (js ''abc''), Play (js ''xyz''), KeyDown 27]
             (loaded_page False (js ''/'') None)) = [Str (js ''abc''), Str (js ''xyz''), Null, Null]"
  by code_simp

text \<open>
  Claim C7, at the input where the code departs from it. The claim says that the keydown
  listener is removed on close and that at most one is ever registered. \<open>setVisible(false)\<close>
  removes the function it has just made, which was never added, so the listener of the
  last opening stays: after play and close one listener is left, after the next play there
  are two.
\<close>

theorem keydown_listeners_accumulate:
  "keydown_listeners (run keep_given [Init None, Play (js ''abc'')]
      (loaded_page False (js ''/'') None)) = [0]
   \<and> keydown_listeners (run keep_given [Init None, Play (js ''abc''), ClickClose]
      (loaded_page False (js ''/'') None)) = [0]
   \<and> keydown_listeners (run keep_given [Init None, Play (js ''abc''), ClickClose, Play (js ''abc'')]
      (loaded_page False (js ''/'') None)) = [0, 2]"
  by code_simp


section \<open>Propagating the parameters of the page\<close>

text \<open>
  Claim C9. When the page has no query string, \<open>updateParamsFromUrl\<close> returns at once: the
  browser is as before, the log of DOM calls included, so nothing was read and nothing
  written. And whatever the page, an element whose attribute is absent, empty or starts
  with \<open>#\<close> is the same after the operation as before, whether the operation returns or
  throws.
\<close>

theorem updateParamsFromUrl_frame:
  "(location_search b = [] \<longrightarrow> updateParamsFromUrl api selects merge given b = (b, None))
   \<and> (j < length (document b)
        \<and> skipped (document b ! j) (attr (merge UpdateParamsFromUrlDefaultConfig given))
      \<longrightarrow> document (fst (updateParamsFromUrl api selects merge given b)) ! j = document b ! j)"
proof -
  have "updateParamsFromUrl api selects merge given b = (b, None)" if "location_search b = []"
    using that by (simp add: updateParamsFromUrl_def)
  moreover have "document (fst (updateParamsFromUrl api selects merge given b)) ! j = document b ! j"
    if j: "j < length (document b)"
      and s: "skipped (document b ! j) (attr (merge UpdateParamsFromUrlDefaultConfig given))"
  proof -
    let ?c = "merge UpdateParamsFromUrlDefaultConfig given"
    obtain els b1 where q: "querySelectorAll selects (selector ?c) b = (els, b1)"
      by (cases "querySelectorAll selects (selector ?c) b")
    then have d: "document b1 = document b"
      by (auto simp: querySelectorAll_def)
    from j s d have "document (fst (update_elements api ?c vals els b1)) ! j = document b ! j"
      for vals
      using update_elements_frame [of j b1 ?c api vals els] by simp
    with q show ?thesis
      by (simp add: updateParamsFromUrl_def Let_def split: prod.splits option.splits)
  qed
  ultimately show ?thesis by blast
qed

text \<open>
  The theorem on a page with the query \<open>a=1\<close> and the links \<open>#top\<close> and \<open>/p\<close>: the first
  link is left as it is (and the second becomes \<open>/p?a=1\<close>); with no query the page is left
  as it is.
\<close>

lemma example_update:
  "(document (fst (updateParamsFromUrl example_api (\<lambda>s d i. True) defaults_only () example_browser)) ! 1)
     (js ''href'') = Some (js ''/p?a=1'')"
  by code_simp

theorem updateParamsFromUrl_frame_witness:
  "document (fst (updateParamsFromUrl example_api (\<lambda>s d i. True) defaults_only () example_browser)) ! 0
     = document example_browser ! 0
   \<and> updateParamsFromUrl example_api (\<lambda>s d i. True) defaults_only ()
        (example_browser\<lparr>location_search := []\<rparr>)
     = (example_browser\<lparr>location_search := []\<rparr>, None)"
proof -
  have h1: "0 < length (document example_browser)"
    by (simp add: example_browser_def)
  have h2: "skipped (document example_browser ! 0)
      (attr (defaults_only UpdateParamsFromUrlDefaultConfig ()))"
    by (simp add: example_browser_def defaults_only_def UpdateParamsFromUrlDefaultConfig_def
        skipped_def startsWith_def js_def)
  have h3: "location_search (example_browser\<lparr>location_search := []\<rparr>) = []"
    by simp
  from updateParamsFromUrl_frame [of "example_browser\<lparr>location_search := []\<rparr>" example_api
      "\<lambda>s d i. True" defaults_only "()" 0] h3
    updateParamsFromUrl_frame [of example_browser example_api "\<lambda>s d i. True" defaults_only "()" 0] h1 h2
  show ?thesis by blast
qed

end

